theory Spec2Isabelle
  imports Complex_Main "HOL-Library.Word"
begin

unbundle bit_operations_syntax

section \<open>Data model\<close>

text \<open>
  Python \<open>bytes\<close> are sequences of integers in \<open>[0, 256)\<close>: a byte is an \<open>8 word\<close>.
  Polynomial coefficients are Python's unbounded integers: \<open>int\<close>.
  List indices and loop counters that never go below zero are \<open>nat\<close>.
\<close>

type_synonym byte = "8 word"

datatype error = IndexError | ValueError | AssertionError

text \<open>ML-KEM-768 parameters (\<open>mlkem.py\<close>, lines 11 to 17).\<close>

definition N :: nat where "N = 256"
definition Q :: int where "Q = 3329"
definition K :: nat where "K = 3"
definition ETA1 :: nat where "ETA1 = 2"
definition ETA2 :: nat where "ETA2 = 2"
definition DU :: nat where "DU = 10"
definition DV :: nat where "DV = 4"

text \<open>
  \<open>bitrev7\<close> formats \<open>n\<close> with seven binary digits, reverses the string and reads it
  back: bit \<open>i\<close> of \<open>n\<close> becomes bit \<open>6 - i\<close>. Reading the reversed string most
  significant digit first is the left fold below (the table only calls it below 128).
\<close>

definition bitrev7 :: "nat \<Rightarrow> nat" where
  "bitrev7 n = foldl (\<lambda>acc i. 2 * acc + (n div 2 ^ i) mod 2) 0 [0..<7]"

definition ZETA :: "int list" where
  "ZETA = map (\<lambda>k. 17 ^ bitrev7 k mod Q) [0..<128]"

definition GAMMA :: "int list" where
  "GAMMA = map (\<lambda>k. 17 ^ (2 * bitrev7 k + 1) mod Q) [0..<128]"

text \<open>Python's \<open>range(a, b, s)\<close> for a positive step.\<close>

definition range3 :: "nat \<Rightarrow> nat \<Rightarrow> nat \<Rightarrow> nat list" where
  "range3 a b s = map (\<lambda>i. a + i * s) [0..<(b - a + s - 1) div s]"

section \<open>Polynomial arithmetic\<close>

text \<open>\<open>zip\<close> stops at the shorter list, in Python as in HOL.\<close>

definition poly256_add :: "int list \<Rightarrow> int list \<Rightarrow> int list" where
  "poly256_add a b = map (\<lambda>(x, y). (x + y) mod Q) (zip a b)"

definition poly256_sub :: "int list \<Rightarrow> int list \<Rightarrow> int list" where
  "poly256_sub a b = map (\<lambda>(x, y). (x - y) mod Q) (zip a b)"

definition ntt_add :: "int list \<Rightarrow> int list \<Rightarrow> int list" where
  "ntt_add = poly256_add"

text \<open>
  \<open>poly256_slow_mul\<close>: the two nested loops over \<open>c[i+j]\<close>, the reduction loop over
  \<open>range(255)\<close>, and the slice \<open>c[:256]\<close>. The loops read \<open>a[j]\<close> and \<open>b[i]\<close> for all
  indices below 256, so a shorter argument raises \<open>IndexError\<close>.
\<close>

definition slow_mul_inner :: "int list \<Rightarrow> int list \<Rightarrow> nat \<Rightarrow> nat \<Rightarrow> int list \<Rightarrow> int list" where
  "slow_mul_inner a b i j c = c[i + j := (c ! (i + j) + a ! j * b ! i) mod Q]"

definition slow_mul_outer :: "int list \<Rightarrow> int list \<Rightarrow> nat \<Rightarrow> int list \<Rightarrow> int list" where
  "slow_mul_outer a b i c = fold (slow_mul_inner a b i) [0..<256] c"

definition slow_mul_reduce :: "nat \<Rightarrow> int list \<Rightarrow> int list" where
  "slow_mul_reduce i c = c[i := (c ! i - c ! (i + 256)) mod Q]"

definition poly256_slow_mul :: "int list \<Rightarrow> int list \<Rightarrow> error + int list" where
  "poly256_slow_mul a b =
     (if length a < 256 \<or> length b < 256 then Inl IndexError
      else let c0 = replicate 511 0;
               c1 = fold (slow_mul_outer a b) [0..<256] c0;
               c2 = fold slow_mul_reduce [0..<255] c1
           in Inr (take 256 c2))"

section \<open>Number-theoretic transform\<close>

text \<open>
  The loop state of \<open>ntt\<close> and \<open>ntt_inv\<close> is the working copy \<open>f_out\<close>, the counter
  \<open>k\<close>, and a log of the indices at which \<open>ZETA\<close> was read (the log is not in the
  source; it records the reads \<open>ZETA[k]\<close> in order). The innermost loop runs the
  three assignments of the butterfly; the middle loop reads \<open>ZETA[k]\<close> and steps
  \<open>k\<close>; the outer loop runs over \<open>log2len\<close>. Index \<open>j + length\<close> reaches 255, so a list
  shorter than 256 raises \<open>IndexError\<close>; longer lists keep their tail.
\<close>

definition ntt_butterfly :: "int \<Rightarrow> nat \<Rightarrow> nat \<Rightarrow> int list \<Rightarrow> int list" where
  "ntt_butterfly zeta len j f =
     (let t = (zeta * f ! (j + len)) mod Q;
          f1 = f[j + len := (f ! j - t) mod Q]
      in f1[j := (f1 ! j + t) mod Q])"

definition ntt_block ::
  "nat \<Rightarrow> nat \<Rightarrow> int list \<times> nat \<times> nat list \<Rightarrow> int list \<times> nat \<times> nat list" where
  "ntt_block len start s =
     (case s of (f, k, reads) \<Rightarrow>
        let zeta = ZETA ! k
        in (fold (ntt_butterfly zeta len) [start..<start + len] f, k + 1, reads @ [k]))"

definition ntt_layer ::
  "nat \<Rightarrow> int list \<times> nat \<times> nat list \<Rightarrow> int list \<times> nat \<times> nat list" where
  "ntt_layer log2len s =
     (let len = 2 ^ log2len in fold (ntt_block len) (range3 0 256 (2 * len)) s)"

definition ntt_run :: "int list \<Rightarrow> int list \<times> nat \<times> nat list" where
  "ntt_run f_in = fold ntt_layer (rev [1..<8]) (f_in, 1, [])"

definition ntt :: "int list \<Rightarrow> error + int list" where
  "ntt f_in = (if length f_in < 256 then Inl IndexError else Inr (fst (ntt_run f_in)))"

text \<open>The inverse transform: \<open>k\<close> starts at 127 and is decremented 127 times, ending at 0.\<close>

definition ntt_inv_butterfly :: "int \<Rightarrow> nat \<Rightarrow> nat \<Rightarrow> int list \<Rightarrow> int list" where
  "ntt_inv_butterfly zeta len j f =
     (let t = f ! j;
          f1 = f[j := (t + f ! (j + len)) mod Q]
      in f1[j + len := (zeta * (f1 ! (j + len) - t)) mod Q])"

definition ntt_inv_block ::
  "nat \<Rightarrow> nat \<Rightarrow> int list \<times> nat \<times> nat list \<Rightarrow> int list \<times> nat \<times> nat list" where
  "ntt_inv_block len start s =
     (case s of (f, k, reads) \<Rightarrow>
        let zeta = ZETA ! k
        in (fold (ntt_inv_butterfly zeta len) [start..<start + len] f, k - 1, reads @ [k]))"

definition ntt_inv_layer ::
  "nat \<Rightarrow> int list \<times> nat \<times> nat list \<Rightarrow> int list \<times> nat \<times> nat list" where
  "ntt_inv_layer log2len s =
     (let len = 2 ^ log2len in fold (ntt_inv_block len) (range3 0 256 (2 * len)) s)"

definition ntt_inv_scale :: "nat \<Rightarrow> int list \<Rightarrow> int list" where
  "ntt_inv_scale i f = f[i := (f ! i * 3303) mod Q]"

definition ntt_inv_run :: "int list \<Rightarrow> int list \<times> nat \<times> nat list" where
  "ntt_inv_run f_in = fold ntt_inv_layer [1..<8] (f_in, 127, [])"

definition ntt_inv :: "int list \<Rightarrow> error + int list" where
  "ntt_inv f_in =
     (if length f_in < 256 then Inl IndexError
      else Inr (fold ntt_inv_scale [0..<256] (fst (ntt_inv_run f_in))))"

text \<open>
  \<open>ntt_mul\<close>: the slices \<open>a[2*i : 2*i+2]\<close> and \<open>b[2*i : 2*i+2]\<close> are unpacked into two
  names each, which raises \<open>ValueError\<close> unless both slices have two elements.
\<close>

definition ntt_mul_step :: "int list \<Rightarrow> int list \<Rightarrow> nat \<Rightarrow> int list \<Rightarrow> int list" where
  "ntt_mul_step a b i c =
     (let a0 = a ! (2 * i); a1 = a ! (2 * i + 1);
          b0 = b ! (2 * i); b1 = b ! (2 * i + 1)
      in c @ [(a0 * b0 + a1 * b1 * GAMMA ! i) mod Q, (a0 * b1 + a1 * b0) mod Q])"

definition ntt_mul :: "int list \<Rightarrow> int list \<Rightarrow> error + int list" where
  "ntt_mul a b =
     (if length a < 256 \<or> length b < 256 then Inl ValueError
      else Inr (fold (ntt_mul_step a b) [0..<128] []))"

section \<open>Compression\<close>

definition compress :: "nat \<Rightarrow> int list \<Rightarrow> int list" where
  "compress d x = map (\<lambda>n. ((n * 2 ^ d + Q div 2) div Q) mod 2 ^ d) x"

text \<open>
  \<open>decompress\<close>: for \<open>d \<ge> 1\<close> (the scheme uses 1, 4 and 10) \<open>2**(d-1)\<close> is an integer.
  At \<open>d = 0\<close> (\<open>test_compress.py\<close> calls \<open>decompress(0, [0])\<close>) it is the float \<open>0.5\<close>:
  Python then floors \<open>(n * Q + 0.5) / 1\<close> and reduces modulo \<open>Q\<close>, and returns a float; the
  model returns the integer that this float equals.
\<close>

definition decompress :: "nat \<Rightarrow> int list \<Rightarrow> int list" where
  "decompress d x =
     map (\<lambda>n. if d = 0 then \<lfloor>(of_int (n * Q) + 1 / 2 :: rat) / 1\<rfloor> mod Q
              else ((n * Q + 2 ^ (d - 1)) div 2 ^ d) mod Q) x"

text \<open>
  The reference rounding of \<open>test_compress.py\<close>, on exact fractions:
  \<open>round_half_up n = floor (n + 1/2)\<close>.
\<close>

definition round_half_up :: "rat \<Rightarrow> int" where
  "round_half_up n = \<lfloor>n + 1 / 2\<rfloor>"

definition compress_proper :: "nat \<Rightarrow> int \<Rightarrow> int" where
  "compress_proper d x = round_half_up (of_int (2 ^ d * x) / of_int Q) mod 2 ^ d"

section \<open>Results of operations that may raise or may not return\<close>

text \<open>
  A Python call either returns a value, raises an exception, or does not return. Pure
  helpers return \<open>error + 'a\<close> (\<open>Inl\<close> the exception). Operations that run a loop
  with no bound return an \<open>option\<close> of that: \<open>None\<close> is the run that never returns.
\<close>

type_synonym 'a result = "(error + 'a) option"

definition bind_err :: "error + 'a \<Rightarrow> ('a \<Rightarrow> error + 'b) \<Rightarrow> error + 'b" where
  "bind_err m f = (case m of Inl e \<Rightarrow> Inl e | Inr v \<Rightarrow> f v)"

fun mapM_err :: "('a \<Rightarrow> error + 'b) \<Rightarrow> 'a list \<Rightarrow> error + 'b list" where
  "mapM_err f [] = Inr []"
| "mapM_err f (x # xs) = bind_err (f x) (\<lambda>y. bind_err (mapM_err f xs) (\<lambda>ys. Inr (y # ys)))"

definition bind_result :: "'a result \<Rightarrow> ('a \<Rightarrow> 'b result) \<Rightarrow> 'b result" where
  "bind_result m f = (case m of None \<Rightarrow> None | Some (Inl e) \<Rightarrow> Some (Inl e) | Some (Inr v) \<Rightarrow> f v)"

fun mapM_result :: "('a \<Rightarrow> 'b result) \<Rightarrow> 'a list \<Rightarrow> 'b list result" where
  "mapM_result f [] = Some (Inr [])"
| "mapM_result f (x # xs) =
     bind_result (f x) (\<lambda>y. bind_result (mapM_result f xs) (\<lambda>ys. Some (Inr (y # ys))))"

text \<open>\<open>functools.reduce\<close> without an initial value: the callers pass three or four items.\<close>

definition reduce :: "('a \<Rightarrow> 'a \<Rightarrow> 'a) \<Rightarrow> 'a list \<Rightarrow> error + 'a" where
  "reduce f xs = (case xs of [] \<Rightarrow> Inl ValueError | x # rest \<Rightarrow> Inr (foldl f x rest))"

section \<open>Byte codec\<close>

text \<open>
  Bits are Python integers. \<open>bits_to_bytes\<close> asserts a length that is a multiple of 8,
  and \<open>bytes(...)\<close> raises \<open>ValueError\<close> for a value outside \<open>range(256)\<close>.
\<close>

definition bits_to_bytes :: "int list \<Rightarrow> error + byte list" where
  "bits_to_bytes bits =
     (if length bits mod 8 \<noteq> 0 then Inl AssertionError
      else let vals = map (\<lambda>i. \<Sum>j\<leftarrow>[0..<8]. push_bit j (bits ! (i + j)))
                          (range3 0 (length bits) 8)
           in if list_all (\<lambda>v. 0 \<le> v \<and> v < 256) vals then Inr (map word_of_int vals)
              else Inl ValueError)"

definition bytes_to_bits :: "byte list \<Rightarrow> int list" where
  "bytes_to_bits data = concat (map (\<lambda>w. map (\<lambda>i. drop_bit i (uint w) AND 1) [0..<8]) data)"

definition byte_encode :: "nat \<Rightarrow> int list \<Rightarrow> error + byte list" where
  "byte_encode d f =
     (if length f \<noteq> 256 then Inl AssertionError
      else bits_to_bytes (concat (map (\<lambda>a. map (\<lambda>i. drop_bit i a AND 1) [0..<d]) f)))"

text \<open>\<open>byte_decode\<close> reads \<open>bits[i * d + j]\<close> up to index \<open>256 * d - 1\<close>.\<close>

definition byte_decode :: "nat \<Rightarrow> byte list \<Rightarrow> error + int list" where
  "byte_decode d data =
     (let bits = bytes_to_bits data
      in if length bits < 256 * d then Inl IndexError
         else Inr (map (\<lambda>i. \<Sum>j\<leftarrow>[0..<d]. push_bit j (bits ! (i * d + j))) [0..<256]))"

section \<open>The XOF stream\<close>

text \<open>
  \<open>ShakeStream\<close> (\<open>shakestream.py\<close>): the digest function, the buffer and the read
  offset. \<open>read\<close> doubles the buffer until it holds \<open>offset + n\<close> bytes, which may
  never happen; it returns the slice and the stream with its offset advanced.
\<close>

record ShakeStream =
  digest :: "nat \<Rightarrow> byte list"
  buf :: "byte list"
  offset :: nat

definition ShakeStream_init :: "(nat \<Rightarrow> byte list) \<Rightarrow> ShakeStream" where
  "ShakeStream_init digestfn = \<lparr>digest = digestfn, buf = digestfn 32, offset = 0\<rparr>"

partial_function (option) read_grow :: "ShakeStream \<Rightarrow> nat \<Rightarrow> ShakeStream option" where
  "read_grow s n =
     (if offset s + n > length (buf s)
      then read_grow (s\<lparr>buf := digest s (length (buf s) * 2)\<rparr>) n
      else Some s)"

definition read :: "ShakeStream \<Rightarrow> nat \<Rightarrow> (byte list \<times> ShakeStream) option" where
  "read s n =
     (case read_grow s n of
        None \<Rightarrow> None
      | Some s' \<Rightarrow> Some (take n (drop (offset s') (buf s')), s'\<lparr>offset := offset s' + n\<rparr>))"

section \<open>Samplers\<close>

text \<open>
  One pass of the body of \<open>sample_ntt\<close>'s loop on the bytes just read: the unpacking
  \<open>a, b, c = ...\<close> raises \<open>ValueError\<close> unless there are exactly three.
\<close>

definition sample_ntt_body :: "int list \<Rightarrow> byte list \<Rightarrow> error + int list" where
  "sample_ntt_body res bs =
     (case bs of
        [a, b, c] \<Rightarrow>
          let d1 = push_bit 8 (uint b AND 15) OR uint a;
              d2 = push_bit 4 (uint c) OR drop_bit 4 (uint b);
              res1 = (if d1 < Q then res @ [d1] else res);
              res2 = (if d2 < Q \<and> length res1 < 256 then res1 @ [d2] else res1)
          in Inr res2
      | _ \<Rightarrow> Inl ValueError)"

partial_function (option) sample_ntt_loop :: "ShakeStream \<Rightarrow> int list \<Rightarrow> int list result" where
  "sample_ntt_loop xof res =
     (if length res < 256
      then (case read xof 3 of
              None \<Rightarrow> None
            | Some (bs, xof') \<Rightarrow>
                (case sample_ntt_body res bs of
                   Inl e \<Rightarrow> Some (Inl e)
                 | Inr res' \<Rightarrow> sample_ntt_loop xof' res'))
      else Some (Inr res))"

definition sample_ntt :: "ShakeStream \<Rightarrow> int list result" where
  "sample_ntt xof = sample_ntt_loop xof []"

definition sample_poly_cbd :: "nat \<Rightarrow> byte list \<Rightarrow> error + int list" where
  "sample_poly_cbd eta data =
     (if length data \<noteq> 64 * eta then Inl AssertionError
      else let bits = bytes_to_bits data
           in Inr (map (\<lambda>i. let x = (\<Sum>j\<leftarrow>[0..<eta]. bits ! (2 * i * eta + j));
                                  y = (\<Sum>j\<leftarrow>[0..<eta]. bits ! (2 * i * eta + eta + j))
                              in (x - y) mod Q) [0..<256]))"

section \<open>Hash functions and randomness\<close>

text \<open>
  \<open>hashlib\<close> and \<open>os.urandom\<close> belong to Python's standard library, not to the
  repository: both are parameters. A hash primitive maps its input to its output byte
  at each position: \<open>digest(n)\<close> of a SHAKE object is the first \<open>n\<close> bytes of that
  output, a SHA3-256 digest the first 32 and a SHA3-512 digest the first 64.
  The operating system's randomness is a byte sequence consumed from the front.
\<close>

record hashlib =
  shake_128 :: "byte list \<Rightarrow> nat \<Rightarrow> byte"
  shake_256 :: "byte list \<Rightarrow> nat \<Rightarrow> byte"
  sha3_256 :: "byte list \<Rightarrow> nat \<Rightarrow> byte"
  sha3_512 :: "byte list \<Rightarrow> nat \<Rightarrow> byte"

definition squeeze :: "(nat \<Rightarrow> byte) \<Rightarrow> nat \<Rightarrow> byte list" where
  "squeeze out n = map out [0..<n]"

type_synonym entropy = "nat \<Rightarrow> byte"

definition os_urandom :: "nat \<Rightarrow> entropy \<Rightarrow> byte list \<times> entropy" where
  "os_urandom n rng = (map rng [0..<n], \<lambda>i. rng (i + n))"

definition mlkem_prf :: "hashlib \<Rightarrow> nat \<Rightarrow> byte list \<Rightarrow> byte \<Rightarrow> byte list" where
  "mlkem_prf hl eta data b = squeeze (shake_256 hl (data @ [b])) (64 * eta)"

definition mlkem_xof :: "hashlib \<Rightarrow> byte list \<Rightarrow> byte \<Rightarrow> byte \<Rightarrow> ShakeStream" where
  "mlkem_xof hl data i j = ShakeStream_init (squeeze (shake_128 hl (data @ [i, j])))"

definition mlkem_hash_H :: "hashlib \<Rightarrow> byte list \<Rightarrow> byte list" where
  "mlkem_hash_H hl data = squeeze (sha3_256 hl data) 32"

definition mlkem_hash_J :: "hashlib \<Rightarrow> byte list \<Rightarrow> byte list" where
  "mlkem_hash_J hl data = squeeze (shake_256 hl data) 32"

definition mlkem_hash_G :: "hashlib \<Rightarrow> byte list \<Rightarrow> byte list" where
  "mlkem_hash_G hl data = squeeze (sha3_512 hl data) 64"

section \<open>K-PKE\<close>

text \<open>
  The matrix loop that \<open>kpke_keygen\<close> and \<open>kpke_encrypt\<close> both run (lines 186 to 191
  and 218 to 223): the outer index \<open>i\<close> builds \<open>row\<close>, the inner index \<open>j\<close> appends
  \<open>sample_ntt(mlkem_xof(rho, i, j))\<close> to it.
\<close>

definition kpke_ahat :: "hashlib \<Rightarrow> byte list \<Rightarrow> int list list list result" where
  "kpke_ahat hl rho =
     mapM_result (\<lambda>i. mapM_result (\<lambda>j. sample_ntt (mlkem_xof hl rho (of_nat i) (of_nat j))) [0..<K])
       [0..<K]"

definition kpke_keygen ::
  "hashlib \<Rightarrow> entropy \<Rightarrow> byte list option \<Rightarrow> ((byte list \<times> byte list) \<times> entropy) result" where
  "kpke_keygen hl rng seed =
     (let (d, rng1) = (case seed of None \<Rightarrow> os_urandom 32 rng | Some s \<Rightarrow> (s, rng));
          ghash = mlkem_hash_G hl d;
          rho = take 32 ghash;
          sigma = drop 32 ghash
      in bind_result (kpke_ahat hl rho) (\<lambda>ahat.
         Some (
         bind_err (mapM_err (\<lambda>i. bind_err (sample_poly_cbd ETA1 (mlkem_prf hl ETA1 sigma (of_nat i))) ntt)
                    [0..<K]) (\<lambda>shat.
         bind_err (mapM_err (\<lambda>i. bind_err (sample_poly_cbd ETA1 (mlkem_prf hl ETA1 sigma (of_nat (i + K)))) ntt)
                    [0..<K]) (\<lambda>ehat.
         bind_err (mapM_err (\<lambda>i.
                     bind_err (mapM_err (\<lambda>j. ntt_mul (ahat ! j ! i) (shat ! j)) [0..<K]) (\<lambda>prods.
                     reduce ntt_add (prods @ [ehat ! i])))
                    [0..<K]) (\<lambda>that.
         bind_err (mapM_err (byte_encode 12) that) (\<lambda>enc_t.
         bind_err (mapM_err (byte_encode 12) shat) (\<lambda>enc_s.
         Inr ((concat enc_t @ rho, concat enc_s), rng1)))))))))"

definition kpke_encrypt :: "hashlib \<Rightarrow> byte list \<Rightarrow> byte list \<Rightarrow> byte list \<Rightarrow> byte list result" where
  "kpke_encrypt hl ek_pke m r =
     (case mapM_err (\<lambda>i. byte_decode 12 (take (128 * K) (drop (i * 128 * K) ek_pke))) [0..<K] of
        Inl e \<Rightarrow> Some (Inl e)
      | Inr that \<Rightarrow>
         let rho = drop (length ek_pke - 32) ek_pke
         in bind_result (kpke_ahat hl rho) (\<lambda>ahat.
            Some (
            bind_err (mapM_err (\<lambda>i. bind_err (sample_poly_cbd ETA1 (mlkem_prf hl ETA1 r (of_nat i))) ntt)
                       [0..<K]) (\<lambda>rhat.
            bind_err (mapM_err (\<lambda>i. sample_poly_cbd ETA2 (mlkem_prf hl ETA2 r (of_nat (i + K))))
                       [0..<K]) (\<lambda>e1.
            bind_err (sample_poly_cbd ETA2 (mlkem_prf hl ETA2 r (of_nat (2 * K)))) (\<lambda>e2.
            bind_err (mapM_err (\<lambda>i.
                        bind_err (mapM_err (\<lambda>j. ntt_mul (ahat ! i ! j) (rhat ! j)) [0..<K]) (\<lambda>prods.
                        bind_err (reduce ntt_add prods) (\<lambda>acc.
                        bind_err (ntt_inv acc) (\<lambda>w. Inr (poly256_add w (e1 ! i))))))
                       [0..<K]) (\<lambda>u.
            bind_err (byte_decode 1 m) (\<lambda>mbits.
            let mu = decompress 1 mbits
            in bind_err (mapM_err (\<lambda>i. ntt_mul (that ! i) (rhat ! i)) [0..<K]) (\<lambda>prods.
               bind_err (reduce ntt_add prods) (\<lambda>acc.
               bind_err (ntt_inv acc) (\<lambda>w.
               let v = poly256_add w (poly256_add e2 mu)
               in bind_err (mapM_err (\<lambda>i. byte_encode DU (compress DU (u ! i))) [0..<K]) (\<lambda>c1.
                  bind_err (byte_encode DV (compress DV v)) (\<lambda>c2.
                  Inr (concat c1 @ c2))))))))))))))"

definition kpke_decrypt :: "byte list \<Rightarrow> byte list \<Rightarrow> error + byte list" where
  "kpke_decrypt dk_pke c =
     (let c1 = take (32 * DU * K) c;
          c2 = drop (32 * DU * K) c
      in bind_err (mapM_err (\<lambda>i. bind_err (byte_decode DU (take (32 * DU) (drop (i * 32 * DU) c1)))
                                   (\<lambda>x. Inr (decompress DU x))) [0..<K]) (\<lambda>u.
         bind_err (byte_decode DV c2) (\<lambda>x.
         let v = decompress DV x
         in bind_err (mapM_err (\<lambda>i. byte_decode 12 (take 384 (drop (i * 384) dk_pke))) [0..<K]) (\<lambda>shat.
            bind_err (mapM_err (\<lambda>i. bind_err (ntt (u ! i)) (ntt_mul (shat ! i))) [0..<K]) (\<lambda>prods.
            bind_err (reduce ntt_add prods) (\<lambda>acc.
            bind_err (ntt_inv acc) (\<lambda>t.
            let w = poly256_sub v t
            in byte_encode 1 (compress 1 w))))))))"

section \<open>ML-KEM\<close>

definition mlkem_keygen ::
  "hashlib \<Rightarrow> entropy \<Rightarrow> byte list option \<Rightarrow> byte list option
     \<Rightarrow> ((byte list \<times> byte list) \<times> entropy) result" where
  "mlkem_keygen hl rng seed1 seed2 =
     (let (z, rng1) = (case seed1 of None \<Rightarrow> os_urandom 32 rng | Some s \<Rightarrow> (s, rng))
      in bind_result (kpke_keygen hl rng1 seed2) (\<lambda>((ek_pke, dk_pke), rng2).
         let ek = ek_pke;
             dk = dk_pke @ ek @ mlkem_hash_H hl ek @ z
         in Some (Inr ((ek, dk), rng2))))"

definition mlkem_encaps ::
  "hashlib \<Rightarrow> entropy \<Rightarrow> byte list \<Rightarrow> byte list option
     \<Rightarrow> ((byte list \<times> byte list) \<times> entropy) result" where
  "mlkem_encaps hl rng ek seed =
     (let (m, rng1) = (case seed of None \<Rightarrow> os_urandom 32 rng | Some s \<Rightarrow> (s, rng));
          ghash = mlkem_hash_G hl (m @ mlkem_hash_H hl ek);
          k = take 32 ghash;
          r = drop 32 ghash
      in bind_result (kpke_encrypt hl ek m r) (\<lambda>c. Some (Inr ((k, c), rng1))))"

text \<open>
  The three operations of the interface run with the operating system's randomness at
  hand and return what is left of it. \<open>mlkem_decaps\<close> (lines 292 to 309) makes no call
  to \<open>os.urandom\<close>, and neither do \<open>kpke_decrypt\<close> and \<open>kpke_encrypt\<close>, which it calls.
\<close>

definition mlkem_decaps ::
  "hashlib \<Rightarrow> entropy \<Rightarrow> byte list \<Rightarrow> byte list \<Rightarrow> (byte list \<times> entropy) result" where
  "mlkem_decaps hl rng c dk =
     (let dk_pke = take (384 * K) dk;
          ek_pke = take (768 * K + 32 - 384 * K) (drop (384 * K) dk);
          h = take 32 (drop (768 * K + 32) dk);
          z = take 32 (drop (768 * K + 64) dk)
      in bind_result (Some (kpke_decrypt dk_pke c)) (\<lambda>mdash.
         let ghash = mlkem_hash_G hl (mdash @ h);
             kdash = take 32 ghash;
             rdash = drop 32 ghash;
             kbar = mlkem_hash_J hl (z @ c)
         in bind_result (kpke_encrypt hl ek_pke mdash rdash) (\<lambda>cdash.
            if cdash \<noteq> c then Some (Inr (kbar, rng)) else Some (Inr (kdash, rng)))))"

section \<open>Stating devices\<close>

text \<open>
  The two 12-bit candidates that the body of \<open>sample_ntt\<close>'s loop forms from a chunk
  \<open>(a, b, c)\<close>; the candidates of chunk \<open>i\<close> of a byte sequence; and the candidates
  below \<open>Q\<close> among the first \<open>m\<close> chunks, in order. \<open>stream_inv\<close> says that a stream
  reads from the byte sequence \<open>out\<close>: its digest function squeezes \<open>out\<close> and its
  buffer is a non-empty prefix of it.
\<close>

definition candidates :: "byte \<Rightarrow> byte \<Rightarrow> byte \<Rightarrow> int list" where
  "candidates a b c = [push_bit 8 (uint b AND 15) OR uint a, push_bit 4 (uint c) OR drop_bit 4 (uint b)]"

definition chunk_candidates :: "(nat \<Rightarrow> byte) \<Rightarrow> nat \<Rightarrow> int list" where
  "chunk_candidates out i = candidates (out (3 * i)) (out (3 * i + 1)) (out (3 * i + 2))"

definition accepted :: "(nat \<Rightarrow> byte) \<Rightarrow> nat \<Rightarrow> int list" where
  "accepted out m = filter (\<lambda>d. d < Q) (concat (map (chunk_candidates out) [0..<m]))"

definition stream_inv :: "(nat \<Rightarrow> byte) \<Rightarrow> ShakeStream \<Rightarrow> bool" where
  "stream_inv out s \<longleftrightarrow> digest s = squeeze out \<and> 0 < length (buf s) \<and> buf s = squeeze out (length (buf s))"

text \<open>
  Stand-ins for \<open>hashlib\<close>, the concrete inputs of the examples below: a primitive whose
  output bytes all equal \<open>c\<close>, and one whose output bytes all equal the last input byte.
\<close>

definition hash_const :: "byte \<Rightarrow> byte list \<Rightarrow> nat \<Rightarrow> byte" where
  "hash_const c data i = c"

definition hash_last :: "byte list \<Rightarrow> nat \<Rightarrow> byte" where
  "hash_last data i = last data"

definition hashlib_zero :: hashlib where
  "hashlib_zero = \<lparr>shake_128 = hash_const 0, shake_256 = hash_const 0,
                    sha3_256 = hash_const 0, sha3_512 = hash_const 0\<rparr>"

definition hashlib_last :: hashlib where
  "hashlib_last = \<lparr>shake_128 = hash_last, shake_256 = hash_const 0,
                    sha3_256 = hash_const 0, sha3_512 = hash_const 0\<rparr>"

section \<open>Proof devices\<close>

text \<open>
  What one layer of the forward and of the inverse transform computes at index \<open>i\<close> of a
  list of 256 coefficients, written without loops: \<open>fwd_layer l\<close> is the pass with
  \<open>length = 2^l\<close> of \<open>ntt\<close>, \<open>inv_layer l\<close> the pass with \<open>length = 2^l\<close> of \<open>ntt_inv\<close>.
  \<open>all_below P n\<close> checks \<open>P\<close> on \<open>0, ..., n - 1\<close>; \<open>pw17 n\<close> is \<open>17^n mod Q\<close>.
\<close>

definition fwd_val :: "int \<Rightarrow> nat \<Rightarrow> int list \<Rightarrow> nat \<Rightarrow> int" where
  "fwd_val z len f i =
     (if i mod (2 * len) < len then (f ! i + z * f ! (i + len)) mod Q
      else (f ! (i - len) - z * f ! i) mod Q)"

definition fwd_layer :: "nat \<Rightarrow> int list \<Rightarrow> int list" where
  "fwd_layer l f =
     map (\<lambda>i. fwd_val (ZETA ! (128 div 2 ^ l + i div (2 * 2 ^ l))) (2 ^ l) f i) [0..<256]"

definition inv_val :: "int \<Rightarrow> nat \<Rightarrow> int list \<Rightarrow> nat \<Rightarrow> int" where
  "inv_val z len g i =
     (if i mod (2 * len) < len then (g ! i + g ! (i + len)) mod Q
      else (z * (g ! i - g ! (i - len))) mod Q)"

definition inv_layer :: "nat \<Rightarrow> int list \<Rightarrow> int list" where
  "inv_layer l g =
     map (\<lambda>i. inv_val (ZETA ! (2 * (128 div 2 ^ l) - 1 - i div (2 * 2 ^ l))) (2 ^ l) g i) [0..<256]"

primrec all_below :: "(nat \<Rightarrow> bool) \<Rightarrow> nat \<Rightarrow> bool" where
  "all_below P 0 = True"
| "all_below P (Suc n) = (P n \<and> all_below P n)"

definition pw17 :: "nat \<Rightarrow> int" where
  "pw17 n = 17 ^ n mod Q"

section \<open>Compression agrees with round-half-up\<close>

lemma round_half_up_div:
  fixes m :: int
  shows "round_half_up (of_int m / of_int Q) = (m + Q div 2) div Q"
proof -
  have "(of_int m / of_int Q :: rat) + 1 / 2 = of_int (2 * m + Q) / of_int (2 * Q)"
    by (simp add: Q_def field_simps)
  then have "round_half_up (of_int m / of_int Q) = (2 * m + Q) div (2 * Q)"
    by (simp only: round_half_up_def floor_divide_of_int_eq)
  also have "\<dots> = ((2 * m + Q) div 2) div Q"
    by (simp add: Q_def div_mult2_eq)
  also have "(2 * m + Q) div 2 = m + Q div 2"
    by (simp add: Q_def)
  finally show ?thesis .
qed

text \<open>
  Claim C6. For every \<open>d\<close> in \<open>[1, 12]\<close> and every \<open>x\<close> in \<open>[0, 3329)\<close>, the
  implemented compression \<open>((x * 2^d + 1664) div 3329) mod 2^d\<close> equals the round-half-up
  of the exact fraction \<open>2^d * x / 3329\<close>, taken modulo \<open>2^d\<close>.
\<close>

theorem compress_round_half_up:
  assumes "1 \<le> d" and "d \<le> 12" and "0 \<le> x" and "x < 3329"
  shows "Q div 2 = 1664 \<and> compress d [x] = [compress_proper d x]"
proof -
  have "compress_proper d x = ((2 ^ d * x + Q div 2) div Q) mod 2 ^ d"
    unfolding compress_proper_def by (simp only: round_half_up_div)
  then have "compress d [x] = [compress_proper d x]"
    by (simp add: compress_def mult.commute)
  moreover have "Q div 2 = 1664"
    by (simp add: Q_def)
  ultimately show ?thesis by simp
qed

theorem compress_round_half_up_witness:
  "(1::nat) \<le> 10 \<and> (10::nat) \<le> 12 \<and> (0::int) \<le> 1000 \<and> (1000::int) < 3329
   \<and> compress 10 [1000] = [compress_proper 10 1000]"
  using compress_round_half_up [of 10 1000] by simp

section \<open>The counter of the forward transform\<close>

lemma ntt_block_counter:
  "snd (ntt_block len start (f, k, r)) = (k + 1, r @ [k])"
  by (simp add: ntt_block_def Let_def)

lemma fold_ntt_block_counter:
  "snd (fold (ntt_block len) starts (f, k, r)) = (k + length starts, r @ [k..<k + length starts])"
proof (induction starts arbitrary: f k r)
  case Nil
  then show ?case by simp
next
  case (Cons x xs)
  obtain f1 where step: "ntt_block len x (f, k, r) = (f1, k + 1, r @ [k])"
    by (simp add: ntt_block_def Let_def)
  have "[k..<k + length (x # xs)] = k # [k + 1..<k + 1 + length xs]"
    by (simp add: upt_rec)
  with Cons.IH [of f1 "k + 1" "r @ [k]"] step show ?case
    by simp
qed

lemma length_range3_layer:
  "l \<in> {1, 2, 3, 4, 5, 6, 7} \<Longrightarrow> length (range3 0 256 (2 * 2 ^ l)) = 128 div 2 ^ l"
  by (elim insertE emptyE; simp add: range3_def)

lemma ntt_layer_counter:
  assumes "l \<in> {1, 2, 3, 4, 5, 6, 7}"
  shows "snd (ntt_layer l (f, k, r)) = (k + 128 div 2 ^ l, r @ [k..<k + 128 div 2 ^ l])"
  using assms by (simp add: ntt_layer_def Let_def fold_ntt_block_counter length_range3_layer del: upt_Suc)

lemma upt_append_join: "i \<le> j \<Longrightarrow> j \<le> k \<Longrightarrow> [i..<j] @ [j..<k] = [i..<k]"
  by (metis le_Suc_ex upt_add_eq_append)

lemma ntt_layer_counter_snd:
  assumes "l \<in> {1, 2, 3, 4, 5, 6, 7}" and "snd s = (k, [1..<k])" and "1 \<le> k"
    and "k' = k + 128 div 2 ^ l"
  shows "snd (ntt_layer l s) = (k', [1..<k'])"
proof -
  obtain f where s: "s = (f, k, [1..<k])"
    using assms(2) by (cases s) simp
  show ?thesis
    unfolding s assms(4) using assms(1,3)
    by (simp add: ntt_layer_counter upt_append_join del: upt_Suc)
qed

lemma ntt_run_counter: "snd (ntt_run f) = (128, [1..<128])"
proof -
  have seq: "rev [1..<8] = [7, 6, 5, 4, 3, 2, 1::nat]"
    by (simp add: upt_rec)
  define s7 where "s7 = ntt_layer 7 (f, 1, [])"
  define s6 where "s6 = ntt_layer 6 s7"
  define s5 where "s5 = ntt_layer 5 s6"
  define s4 where "s4 = ntt_layer 4 s5"
  define s3 where "s3 = ntt_layer 3 s4"
  define s2 where "s2 = ntt_layer 2 s3"
  define s1 where "s1 = ntt_layer 1 s2"
  have c7: "snd s7 = (2, [1..<2])"
    unfolding s7_def by (rule ntt_layer_counter_snd [where k = 1]) simp_all
  have c6: "snd s6 = (4, [1..<4])"
    unfolding s6_def by (rule ntt_layer_counter_snd [where k = 2, OF _ c7]) simp_all
  have c5: "snd s5 = (8, [1..<8])"
    unfolding s5_def by (rule ntt_layer_counter_snd [where k = 4, OF _ c6]) simp_all
  have c4: "snd s4 = (16, [1..<16])"
    unfolding s4_def by (rule ntt_layer_counter_snd [where k = 8, OF _ c5]) simp_all
  have c3: "snd s3 = (32, [1..<32])"
    unfolding s3_def by (rule ntt_layer_counter_snd [where k = 16, OF _ c4]) simp_all
  have c2: "snd s2 = (64, [1..<64])"
    unfolding s2_def by (rule ntt_layer_counter_snd [where k = 32, OF _ c3]) simp_all
  have c1: "snd s1 = (128, [1..<128])"
    unfolding s1_def by (rule ntt_layer_counter_snd [where k = 64, OF _ c2]) simp_all
  have "ntt_run f = s1"
    unfolding ntt_run_def seq s1_def s2_def s3_def s4_def s5_def s6_def s7_def by simp
  with c1 show ?thesis by simp
qed

text \<open>
  Claim C8, as amended. The counter \<open>k\<close> of the forward transform starts at 1; over the
  seven layers \<open>ZETA\<close> is read once per block, at the indices 1, 2, ..., 127 in this
  order, which are 127 reads (\<open>ZETA[0]\<close> is never read), and the counter ends at 128.
\<close>

theorem ntt_zeta_counter:
  assumes "256 \<le> length f"
  shows "ntt f = Inr (fst (ntt_run f))
         \<and> ntt_run f = fold ntt_layer [7, 6, 5, 4, 3, 2, 1] (f, 1, [])
         \<and> fst (snd (ntt_run f)) = 128
         \<and> snd (snd (ntt_run f)) = [1..<128]
         \<and> length (snd (snd (ntt_run f))) = 127"
proof -
  have "rev [1..<8] = [7, 6, 5, 4, 3, 2, 1::nat]"
    by (simp add: upt_rec)
  then have layers: "ntt_run f = fold ntt_layer [7, 6, 5, 4, 3, 2, 1] (f, 1, [])"
    by (simp only: ntt_run_def)
  have ret: "ntt f = Inr (fst (ntt_run f))"
    using assms by (simp add: ntt_def)
  have counter: "fst (snd (ntt_run f)) = 128" and reads: "snd (snd (ntt_run f)) = [1..<128]"
    by (simp_all add: ntt_run_counter del: upt_Suc)
  have "length (snd (snd (ntt_run f))) = 127"
    by (simp add: reads del: upt_Suc)
  with layers ret counter reads show ?thesis
    by blast
qed

theorem ntt_zeta_counter_witness:
  "ntt (replicate 256 0) = Inr (fst (ntt_run (replicate 256 0)))
   \<and> fst (snd (ntt_run (replicate 256 0))) = 128
   \<and> length (snd (snd (ntt_run (replicate 256 0)))) = 127"
proof -
  have "256 \<le> length (replicate 256 (0::int))"
    by simp
  from ntt_zeta_counter [OF this] show ?thesis
    by blast
qed

text \<open>The claim as written (128 values of \<open>ZETA\<close> consumed) fails: 127 are read.\<close>

theorem ntt_zeta_reads_counterexample:
  "length (snd (snd (ntt_run (replicate 256 0)))) \<noteq> 128"
  by (simp add: ntt_run_counter del: upt_Suc)

section \<open>The XOF stream and the rejection sampler\<close>

lemma read_grow_returns:
  assumes "\<forall>m. length (digest s m) = m" and "0 < length (buf s)"
  shows "\<exists>s'. read_grow s n = Some s' \<and> digest s' = digest s \<and> offset s' = offset s
              \<and> offset s + n \<le> length (buf s') \<and> 0 < length (buf s')
              \<and> (buf s' = buf s \<or> buf s' = digest s (length (buf s')))"
  using assms
proof (induction "offset s + n - length (buf s)" arbitrary: s rule: less_induct)
  case less
  show ?case
  proof (cases "offset s + n > length (buf s)")
    case False
    then show ?thesis
      using less.prems by (subst read_grow.simps) simp
  next
    case True
    define s2 where "s2 = s\<lparr>buf := digest s (length (buf s) * 2)\<rparr>"
    have len2: "length (buf s2) = length (buf s) * 2"
      using less.prems by (simp add: s2_def)
    have "offset s + n - length (buf s) * 2 < offset s + n - length (buf s)"
      using True less.prems(2) by linarith
    then have "offset s2 + n - length (buf s2) < offset s + n - length (buf s)"
      using len2 by (simp add: s2_def)
    moreover have "\<forall>m. length (digest s2 m) = m" "0 < length (buf s2)"
      using less.prems len2 by (simp_all add: s2_def)
    ultimately obtain s' where
      "read_grow s2 n = Some s'" "digest s' = digest s2" "offset s' = offset s2"
      "offset s2 + n \<le> length (buf s')" "0 < length (buf s')"
      "buf s' = buf s2 \<or> buf s' = digest s2 (length (buf s'))"
      using less.hyps [of s2] by blast
    moreover have "read_grow s n = read_grow s2 n"
      using True by (subst read_grow.simps) (simp add: s2_def)
    moreover have "buf s2 = digest s (length (buf s2))"
      using less.prems(1) by (simp add: s2_def)
    ultimately show ?thesis
      by (auto simp: s2_def)
  qed
qed

lemma read_grow_enough:
  assumes "read_grow s n = Some s'"
  shows "offset s' + n \<le> length (buf s')"
proof (rule read_grow.raw_induct [where P = "\<lambda>s n s'. offset s' + n \<le> length (buf s')", OF _ assms])
  fix f :: "ShakeStream \<Rightarrow> nat \<Rightarrow> ShakeStream option" and s n s'
  assume IH: "\<And>s n s'. f s n = Some s' \<Longrightarrow> offset s' + n \<le> length (buf s')"
    and body: "(if length (buf s) < offset s + n
                then f (s\<lparr>buf := digest s (length (buf s) * 2)\<rparr>) n else Some s) = Some s'"
  show "offset s' + n \<le> length (buf s')"
  proof (cases "length (buf s) < offset s + n")
    case True
    with body IH show ?thesis by simp
  next
    case False
    with body show ?thesis by simp
  qed
qed

lemma read_length:
  assumes "read s n = Some (bs, s')"
  shows "length bs = n"
proof -
  obtain s1 where g: "read_grow s n = Some s1" and bs: "bs = take n (drop (offset s1) (buf s1))"
    using assms by (auto simp: read_def split: option.splits)
  from read_grow_enough [OF g] show ?thesis
    by (simp add: bs)
qed

lemma stream_inv_init: "stream_inv out (ShakeStream_init (squeeze out))"
  by (simp add: stream_inv_def ShakeStream_init_def squeeze_def)

lemma read_stream:
  assumes "stream_inv out s"
  shows "\<exists>s'. read s n = Some (map out [offset s..<offset s + n], s')
              \<and> stream_inv out s' \<and> offset s' = offset s + n"
proof -
  have len: "\<forall>m. length (digest s m) = m" and pos: "0 < length (buf s)"
    using assms by (simp_all add: stream_inv_def squeeze_def)
  from read_grow_returns [OF len pos, of n] obtain s1 where
    g: "read_grow s n = Some s1" and d: "digest s1 = digest s" and off: "offset s1 = offset s"
    and enough: "offset s + n \<le> length (buf s1)" and pos1: "0 < length (buf s1)"
    and b: "buf s1 = buf s \<or> buf s1 = digest s (length (buf s1))"
    by blast
  have b1: "buf s1 = squeeze out (length (buf s1))"
    using b assms by (auto simp: stream_inv_def)
  have "take n (drop (offset s1) (buf s1)) = map out [offset s..<offset s + n]"
    using enough by (subst b1) (simp add: squeeze_def off drop_map take_map)
  moreover have "stream_inv out (s1\<lparr>offset := offset s1 + n\<rparr>)"
    using d pos1 b1 assms by (simp add: stream_inv_def)
  ultimately show ?thesis
    using g off by (simp add: read_def)
qed

lemma candidates_nonneg: "d \<in> set (candidates a b c) \<Longrightarrow> 0 \<le> d"
  by (auto simp: candidates_def)

lemma sample_ntt_body_take:
  assumes "length res < 256"
  shows "sample_ntt_body res [a, b, c] = Inr (take 256 (res @ filter (\<lambda>d. d < Q) (candidates a b c)))"
proof (cases "length res = 255")
  case True
  then show ?thesis
    by (simp add: sample_ntt_body_def candidates_def Let_def)
next
  case False
  with assms have "length res < 255" by simp
  then show ?thesis
    by (simp add: sample_ntt_body_def candidates_def Let_def)
qed

lemma accepted_Suc:
  "accepted out (Suc i) = accepted out i @ filter (\<lambda>d. d < Q) (chunk_candidates out i)"
  by (simp add: accepted_def)

lemma accepted_prefix:
  "i \<le> m \<Longrightarrow> \<exists>ys. accepted out m = accepted out i @ ys"
proof (induction m)
  case 0
  then show ?case by simp
next
  case (Suc m)
  then show ?case
    by (cases "i = Suc m") (auto simp: accepted_Suc)
qed

lemma sample_ntt_loop_accepted:
  assumes "stream_inv out s" and "offset s = 3 * i" and "i \<le> m"
    and "256 \<le> length (accepted out m)"
  shows "sample_ntt_loop s (take 256 (accepted out i)) = Some (Inr (take 256 (accepted out m)))"
  using assms
proof (induction "m - i" arbitrary: s i)
  case 0
  then have "i = m" by simp
  with "0.prems" show ?case
    by (subst sample_ntt_loop.simps) simp
next
  case (Suc k)
  show ?case
  proof (cases "length (accepted out i) < 256")
    case False
    obtain ys where "accepted out m = accepted out i @ ys"
      using accepted_prefix [OF Suc.prems(3)] by blast
    with False have "take 256 (accepted out m) = take 256 (accepted out i)"
      by simp
    with False show ?thesis
      by (subst sample_ntt_loop.simps) simp
  next
    case True
    from read_stream [OF Suc.prems(1), of 3] obtain s' where
      r: "read s 3 = Some (map out [offset s..<offset s + 3], s')"
      and inv': "stream_inv out s'" and off': "offset s' = offset s + 3"
      by blast
    have chunk: "map out [offset s..<offset s + 3] = [out (3 * i), out (3 * i + 1), out (3 * i + 2)]"
      by (simp add: Suc.prems(2) upt_rec)
    have body: "sample_ntt_body (take 256 (accepted out i)) [out (3 * i), out (3 * i + 1), out (3 * i + 2)]
                = Inr (take 256 (accepted out (Suc i)))"
      using True by (simp add: sample_ntt_body_take accepted_Suc chunk_candidates_def)
    have "sample_ntt_loop s' (take 256 (accepted out (Suc i))) = Some (Inr (take 256 (accepted out m)))"
      using Suc.hyps Suc.prems inv' off' by (intro Suc.hyps(1)) simp_all
    then show ?thesis
      using True r chunk body by (subst sample_ntt_loop.simps) simp
  qed
qed


lemma sample_ntt_body_range:
  assumes "length res < 256" and "list_all (\<lambda>x. 0 \<le> x \<and> x < Q) res"
    and "sample_ntt_body res [a, b, c] = Inr res'"
  shows "length res' \<le> 256 \<and> list_all (\<lambda>x. 0 \<le> x \<and> x < Q) res'"
proof -
  have res': "res' = take 256 (res @ filter (\<lambda>d. d < Q) (candidates a b c))"
    using assms(3) by (simp add: sample_ntt_body_take [OF assms(1)])
  have old: "\<And>x. x \<in> set res \<Longrightarrow> 0 \<le> x \<and> x < Q"
    using assms(2) by (simp add: list_all_iff)
  have new: "0 \<le> x \<and> x < Q" if "x \<in> set (filter (\<lambda>d. d < Q) (candidates a b c))" for x
  proof -
    from that have "x \<in> set (candidates a b c)" and "x < Q"
      by simp_all
    then show ?thesis
      by (simp add: candidates_nonneg)
  qed
  have "set res' \<subseteq> set res \<union> set (filter (\<lambda>d. d < Q) (candidates a b c))"
    unfolding res' using set_take_subset [of 256 "res @ filter (\<lambda>d. d < Q) (candidates a b c)"]
    by simp
  with old new have "\<And>x. x \<in> set res' \<Longrightarrow> 0 \<le> x \<and> x < Q"
    by blast
  then have "list_all (\<lambda>x. 0 \<le> x \<and> x < Q) res'"
    by (simp add: list_all_iff)
  moreover have "length res' \<le> 256"
    by (simp add: res')
  ultimately show ?thesis by simp
qed

lemma sample_ntt_loop_partial:
  assumes "sample_ntt_loop xof res = Some y"
  shows "length res \<le> 256 \<longrightarrow> list_all (\<lambda>x. 0 \<le> x \<and> x < Q) res \<longrightarrow>
         (\<exists>r. y = Inr r \<and> length r = 256 \<and> list_all (\<lambda>x. 0 \<le> x \<and> x < Q) r)"
proof (rule sample_ntt_loop.raw_induct [where P = "\<lambda>xof res y. length res \<le> 256 \<longrightarrow>
         list_all (\<lambda>x. 0 \<le> x \<and> x < Q) res \<longrightarrow>
         (\<exists>r. y = Inr r \<and> length r = 256 \<and> list_all (\<lambda>x. 0 \<le> x \<and> x < Q) r)", OF _ assms])
  fix f :: "ShakeStream \<Rightarrow> int list \<Rightarrow> int list result" and xof res y
  assume IH: "\<And>xof res y. f xof res = Some y \<Longrightarrow> length res \<le> 256 \<longrightarrow>
         list_all (\<lambda>x. 0 \<le> x \<and> x < Q) res \<longrightarrow>
         (\<exists>r. y = Inr r \<and> length r = 256 \<and> list_all (\<lambda>x. 0 \<le> x \<and> x < Q) r)"
    and body: "(if length res < 256
                then case read xof 3 of None \<Rightarrow> None
                     | Some (bs, xof') \<Rightarrow>
                         (case sample_ntt_body res bs of Inl e \<Rightarrow> Some (Inl e)
                          | Inr res' \<Rightarrow> f xof' res')
                else Some (Inr res)) = Some y"
  show "length res \<le> 256 \<longrightarrow> list_all (\<lambda>x. 0 \<le> x \<and> x < Q) res \<longrightarrow>
         (\<exists>r. y = Inr r \<and> length r = 256 \<and> list_all (\<lambda>x. 0 \<le> x \<and> x < Q) r)"
  proof (intro impI)
    assume len: "length res \<le> 256" and rng: "list_all (\<lambda>x. 0 \<le> x \<and> x < Q) res"
    show "\<exists>r. y = Inr r \<and> length r = 256 \<and> list_all (\<lambda>x. 0 \<le> x \<and> x < Q) r"
    proof (cases "length res < 256")
      case False
      with body len rng show ?thesis by auto
    next
      case True
      with body obtain bs xof' where r: "read xof 3 = Some (bs, xof')"
        by (auto split: option.splits)
      from read_length [OF r] obtain a b c where bs: "bs = [a, b, c]"
        by (auto simp: length_Suc_conv numeral_3_eq_3)
      obtain res' where b: "sample_ntt_body res [a, b, c] = Inr res'"
        by (simp add: sample_ntt_body_take [OF True])
      from body True r bs b have "f xof' res' = Some y"
        by simp
      with IH sample_ntt_body_range [OF True rng b] show ?thesis
        by blast
    qed
  qed
qed

lemma sample_ntt_accepted:
  assumes "256 \<le> length (accepted out m)"
  shows "sample_ntt (ShakeStream_init (squeeze out)) = Some (Inr (take 256 (accepted out m)))"
proof -
  have "sample_ntt_loop (ShakeStream_init (squeeze out)) (take 256 (accepted out 0))
        = Some (Inr (take 256 (accepted out m)))"
    by (rule sample_ntt_loop_accepted [OF stream_inv_init _ _ assms])
       (simp_all add: ShakeStream_init_def)
  then show ?thesis
    by (simp add: sample_ntt_def accepted_def)
qed

lemma accepted_all_length:
  assumes "\<And>i. filter (\<lambda>d. d < Q) (chunk_candidates out i) = chunk_candidates out i"
  shows "length (accepted out m) = 2 * m"
proof (induction m)
  case 0
  show ?case by (simp add: accepted_def)
next
  case (Suc m)
  have "length (chunk_candidates out m) = 2"
    by (simp add: chunk_candidates_def candidates_def)
  with Suc show ?case
    by (simp add: accepted_Suc assms)
qed

lemma sample_ntt_loop_starving:
  assumes starve: "\<And>m. length (accepted out m) < 256"
  shows "stream_inv out s \<Longrightarrow> offset s = 3 * i \<Longrightarrow> sample_ntt_loop s (accepted out i) = None"
proof -
  have "\<not> (stream_inv out s \<and> (\<exists>i. offset s = 3 * i \<and> res = accepted out i))"
    if "sample_ntt_loop s res = Some y" for s res y
  proof (rule sample_ntt_loop.raw_induct [where P = "\<lambda>s res y.
           \<not> (stream_inv out s \<and> (\<exists>i. offset s = 3 * i \<and> res = accepted out i))", OF _ that])
    fix f :: "ShakeStream \<Rightarrow> int list \<Rightarrow> int list result" and s res y
    assume IH: "\<And>s res y. f s res = Some y \<Longrightarrow>
                  \<not> (stream_inv out s \<and> (\<exists>i. offset s = 3 * i \<and> res = accepted out i))"
      and body: "(if length res < 256
                then case read s 3 of None \<Rightarrow> None
                     | Some (bs, xof') \<Rightarrow>
                         (case sample_ntt_body res bs of Inl e \<Rightarrow> Some (Inl e)
                          | Inr res' \<Rightarrow> f xof' res')
                else Some (Inr res)) = Some y"
    show "\<not> (stream_inv out s \<and> (\<exists>i. offset s = 3 * i \<and> res = accepted out i))"
    proof
      assume a: "stream_inv out s \<and> (\<exists>i. offset s = 3 * i \<and> res = accepted out i)"
      then obtain i where inv: "stream_inv out s" and off: "offset s = 3 * i"
        and res: "res = accepted out i"
        by blast
      have short: "length res < 256"
        using starve [of i] by (simp add: res)
      from read_stream [OF inv, of 3] obtain s' where
        r: "read s 3 = Some (map out [offset s..<offset s + 3], s')"
        and inv': "stream_inv out s'" and off': "offset s' = offset s + 3"
        by blast
      have chunk: "map out [offset s..<offset s + 3] = [out (3 * i), out (3 * i + 1), out (3 * i + 2)]"
        by (simp add: off upt_rec)
      have "sample_ntt_body res [out (3 * i), out (3 * i + 1), out (3 * i + 2)]
            = Inr (take 256 (accepted out (Suc i)))"
        using short by (simp add: sample_ntt_body_take accepted_Suc chunk_candidates_def res)
      then have b: "sample_ntt_body res [out (3 * i), out (3 * i + 1), out (3 * i + 2)]
            = Inr (accepted out (Suc i))"
        using starve [of "Suc i"] by simp
      from body short r chunk b have "f s' (accepted out (Suc i)) = Some y"
        by simp
      moreover have "offset s' = 3 * Suc i"
        by (simp add: off' off)
      ultimately show False
        using IH [of s' "accepted out (Suc i)" y] inv' by blast
    qed
  qed
  then show "stream_inv out s \<Longrightarrow> offset s = 3 * i \<Longrightarrow> sample_ntt_loop s (accepted out i) = None"
    by (cases "sample_ntt_loop s (accepted out i)") auto
qed

lemma sample_ntt_starving:
  assumes "\<And>m. length (accepted out m) < 256"
  shows "sample_ntt (ShakeStream_init (squeeze out)) = None"
proof -
  have "sample_ntt_loop (ShakeStream_init (squeeze out)) (accepted out 0) = None"
    by (rule sample_ntt_loop_starving [where out = out, OF assms stream_inv_init])
       (simp add: ShakeStream_init_def)
  then show ?thesis
    by (simp add: sample_ntt_def accepted_def)
qed

lemma accepted_none:
  assumes "\<And>i. filter (\<lambda>d. d < Q) (chunk_candidates out i) = []"
  shows "accepted out m = []"
  by (induction m) (simp_all add: accepted_Suc assms, simp add: accepted_def)

lemma mapM_result_nth:
  "mapM_result f xs = Some (Inr ys) \<Longrightarrow>
   length ys = length xs \<and> (\<forall>i<length xs. f (xs ! i) = Some (Inr (ys ! i)))"
proof (induction xs arbitrary: ys)
  case Nil
  then show ?case by simp
next
  case (Cons x xs)
  from Cons.prems obtain y ys' where fx: "f x = Some (Inr y)"
    and rest: "mapM_result f xs = Some (Inr ys')" and ys: "ys = y # ys'"
    by (auto simp: bind_result_def split: option.splits sum.splits)
  from Cons.IH [OF rest] have len: "length ys' = length xs"
    and nth: "\<And>i. i < length xs \<Longrightarrow> f (xs ! i) = Some (Inr (ys' ! i))"
    by simp_all
  show ?case
  proof (intro conjI allI impI)
    show "length ys = length (x # xs)"
      by (simp add: ys len)
  next
    fix i
    assume "i < length (x # xs)"
    then show "f ((x # xs) ! i) = Some (Inr (ys ! i))"
      by (cases i) (simp_all add: ys fx nth)
  qed
qed

lemma mapM_result_all:
  "(\<And>x. x \<in> set xs \<Longrightarrow> \<exists>y. f x = Some (Inr y)) \<Longrightarrow> \<exists>ys. mapM_result f xs = Some (Inr ys)"
proof (induction xs)
  case Nil
  then show ?case by simp
next
  case (Cons x xs)
  obtain y where "f x = Some (Inr y)"
    using Cons.prems [of x] by auto
  moreover obtain ys where "mapM_result f xs = Some (Inr ys)"
    using Cons.IH Cons.prems by auto
  ultimately show ?case
    by (simp add: bind_result_def)
qed

lemma kpke_ahat_nth:
  assumes "kpke_ahat hl rho = Some (Inr ahat)" and "i < 3" and "j < 3"
  shows "sample_ntt (mlkem_xof hl rho (of_nat i) (of_nat j)) = Some (Inr (ahat ! i ! j))"
proof -
  let ?row = "\<lambda>i. mapM_result (\<lambda>j. sample_ntt (mlkem_xof hl rho (of_nat i) (of_nat j))) [0..<K]"
  have "mapM_result ?row [0..<K] = Some (Inr ahat)"
    using assms(1) by (simp add: kpke_ahat_def)
  from mapM_result_nth [OF this] assms(2) have "?row i = Some (Inr (ahat ! i))"
    by (simp add: K_def)
  from mapM_result_nth [OF this] assms(3) show ?thesis
    by (simp add: K_def)
qed

lemma kpke_ahat_returns:
  assumes "\<And>i j. i < 3 \<Longrightarrow> j < 3 \<Longrightarrow> \<exists>p. sample_ntt (mlkem_xof hl rho (of_nat i) (of_nat j)) = Some (Inr p)"
  shows "\<exists>ahat. kpke_ahat hl rho = Some (Inr ahat)"
  unfolding kpke_ahat_def
  by (rule mapM_result_all, rule mapM_result_all) (use assms in \<open>simp add: K_def\<close>)

lemma accepted_hd:
  assumes "accepted out 1 = x # xs" and "1 \<le> m"
  shows "hd (take 256 (accepted out m)) = x"
proof -
  obtain ys where "accepted out m = accepted out 1 @ ys"
    using accepted_prefix [OF assms(2)] by blast
  with assms(1) show ?thesis
    by simp
qed

lemma sample_ntt_const_small:
  assumes "filter (\<lambda>d. d < Q) (candidates c c c) = candidates c c c"
  shows "sample_ntt (ShakeStream_init (squeeze (\<lambda>_. c))) = Some (Inr (take 256 (accepted (\<lambda>_. c) 128)))"
proof (rule sample_ntt_accepted)
  have "length (accepted (\<lambda>_. c) 128) = 2 * 128"
    by (rule accepted_all_length) (simp add: chunk_candidates_def assms)
  then show "256 \<le> length (accepted (\<lambda>_. c) 128)"
    by simp
qed

section \<open>The rejection sampler\<close>

text \<open>
  Claim C7, as amended. Whenever \<open>sample_ntt\<close> returns, on any stream, it returns exactly
  256 coefficients, each in \<open>[0, 3329)\<close>, and raises nothing. On a stream that reads the
  byte sequence \<open>out\<close> in which the first \<open>m\<close> 3-byte chunks hold at least 256
  candidates below 3329, it does return, and the result is the first 256 of those
  candidates in order, where chunk \<open>(a, b, c)\<close> gives \<open>d1 = ((b & 0x0f) << 8) | a\<close> and
  then \<open>d2 = (c << 4) | (b >> 4)\<close>. When the first candidate of a chunk fills slot 256,
  the second is discarded even if it is below 3329. (On a stream that never supplies
  256 such candidates the loop does not return.)
\<close>

theorem sample_ntt_coefficients:
  "(sample_ntt xof = Some y \<longrightarrow>
      (\<exists>res. y = Inr res \<and> length res = 256 \<and> list_all (\<lambda>x. 0 \<le> x \<and> x < 3329) res))
   \<and> (256 \<le> length (accepted out m) \<longrightarrow>
      sample_ntt (ShakeStream_init (squeeze out)) = Some (Inr (take 256 (accepted out m))))
   \<and> (length res = 255 \<longrightarrow> push_bit 8 (uint b AND 15) OR uint a < Q \<longrightarrow>
      sample_ntt_body res [a, b, c] = Inr (res @ [push_bit 8 (uint b AND 15) OR uint a]))"
proof (intro conjI impI)
  assume "sample_ntt xof = Some y"
  then have "sample_ntt_loop xof [] = Some y"
    by (simp add: sample_ntt_def)
  from sample_ntt_loop_partial [OF this]
  show "\<exists>res. y = Inr res \<and> length res = 256 \<and> list_all (\<lambda>x. 0 \<le> x \<and> x < 3329) res"
    by (simp add: Q_def)
next
  assume "256 \<le> length (accepted out m)"
  then show "sample_ntt (ShakeStream_init (squeeze out)) = Some (Inr (take 256 (accepted out m)))"
    by (rule sample_ntt_accepted)
next
  assume "length res = 255" and "push_bit 8 (uint b AND 15) OR uint a < Q"
  then show "sample_ntt_body res [a, b, c] = Inr (res @ [push_bit 8 (uint b AND 15) OR uint a])"
    by (simp add: sample_ntt_body_def Let_def)
qed

theorem sample_ntt_coefficients_witness:
  "sample_ntt (ShakeStream_init (squeeze (\<lambda>_. 0)))
     = Some (Inr (take 256 (accepted (\<lambda>_. 0) 128)))
   \<and> length (take 256 (accepted (\<lambda>_. 0) 128)) = 256
   \<and> list_all (\<lambda>x. 0 \<le> x \<and> x < 3329) (take 256 (accepted (\<lambda>_. 0) 128))
   \<and> sample_ntt_body (replicate 255 7) [1, 0, 255] = Inr (replicate 255 7 @ [1])"
proof -
  have len: "length (accepted (\<lambda>_. 0) 128) = 2 * 128"
    by (rule accepted_all_length) (simp add: chunk_candidates_def candidates_def Q_def)
  then have enough: "256 \<le> length (accepted (\<lambda>_. 0) 128)"
    by simp
  note inst = sample_ntt_coefficients
    [of "ShakeStream_init (squeeze (\<lambda>_. 0))" "Inr (take 256 (accepted (\<lambda>_. 0) 128))"
        "\<lambda>_. 0" 128 "replicate 255 7" 0 1 255]
  from inst enough
  have run: "sample_ntt (ShakeStream_init (squeeze (\<lambda>_. 0)))
             = Some (Inr (take 256 (accepted (\<lambda>_. 0) 128)))"
    by blast
  with inst have "list_all (\<lambda>x. 0 \<le> x \<and> x < 3329) (take 256 (accepted (\<lambda>_. 0) 128))"
    by blast
  moreover have "length (take 256 (accepted (\<lambda>_. 0) 128)) = 256"
    using len by simp
  moreover have "sample_ntt_body (replicate 255 7) [1, 0, 255] = Inr (replicate 255 7 @ [1])"
  proof -
    have "length (replicate 255 (7::int)) = 255" and "push_bit 8 (uint (0::byte) AND 15) OR uint (1::byte) < Q"
      by (simp_all add: Q_def)
    with inst show ?thesis by simp
  qed
  ultimately show ?thesis
    using run by simp
qed

text \<open>
  The claim as written (a result for every stream) fails on the stream whose bytes are
  all \<open>0xFF\<close>: both candidates of every chunk are 4095, and the loop never returns.
\<close>

theorem sample_ntt_all_ff_counterexample:
  "sample_ntt (ShakeStream_init (squeeze (\<lambda>_. 255))) = None"
proof (rule sample_ntt_starving)
  fix m
  have "accepted (\<lambda>_. 255) m = []"
    by (rule accepted_none) (simp add: chunk_candidates_def candidates_def Q_def)
  then show "length (accepted (\<lambda>_. 255) m) < 256"
    by simp
qed

section \<open>Termination of the two unbounded loops\<close>

text \<open>
  Claim C9, as amended. \<open>ShakeStream.read\<close> returns for every requested length when the
  digest function returns as many bytes as it is asked for (as \<open>hashlib\<close>'s does) and
  the buffer is not empty, in particular on a fresh stream. \<open>sample_ntt\<close> returns on a
  stream reading the byte sequence \<open>out\<close> exactly when some finite number of chunks of
  \<open>out\<close> holds 256 candidates below 3329; otherwise its loop runs forever.
\<close>

theorem loops_terminate:
  "((\<forall>m. length (digest s m) = m) \<and> 0 < length (buf s) \<longrightarrow> (\<exists>r. read s n = Some r))
   \<and> ((\<forall>m. length (d m) = m) \<longrightarrow> (\<exists>r. read (ShakeStream_init d) n = Some r))
   \<and> ((\<exists>m. 256 \<le> length (accepted out m)) \<longleftrightarrow>
        sample_ntt (ShakeStream_init (squeeze out)) \<noteq> None)"
proof (intro conjI impI)
  assume "(\<forall>m. length (digest s m) = m) \<and> 0 < length (buf s)"
  then obtain s' where "read_grow s n = Some s'"
    using read_grow_returns [of s n] by blast
  then show "\<exists>r. read s n = Some r"
    by (simp add: read_def)
next
  assume len: "\<forall>m. length (d m) = m"
  then have "\<forall>m. length (digest (ShakeStream_init d) m) = m"
    and "0 < length (buf (ShakeStream_init d))"
    by (simp_all add: ShakeStream_init_def)
  then obtain s' where "read_grow (ShakeStream_init d) n = Some s'"
    using read_grow_returns [of "ShakeStream_init d" n] by blast
  then show "\<exists>r. read (ShakeStream_init d) n = Some r"
    by (simp add: read_def)
next
  show "(\<exists>m. 256 \<le> length (accepted out m)) \<longleftrightarrow>
        sample_ntt (ShakeStream_init (squeeze out)) \<noteq> None"
  proof
    assume "\<exists>m. 256 \<le> length (accepted out m)"
    then obtain m where "256 \<le> length (accepted out m)"
      by blast
    from sample_ntt_accepted [OF this] show "sample_ntt (ShakeStream_init (squeeze out)) \<noteq> None"
      by simp
  next
    assume ret: "sample_ntt (ShakeStream_init (squeeze out)) \<noteq> None"
    show "\<exists>m. 256 \<le> length (accepted out m)"
    proof (rule ccontr)
      assume "\<not> (\<exists>m. 256 \<le> length (accepted out m))"
      then have "\<And>m. length (accepted out m) < 256"
        by (simp add: not_le)
      from sample_ntt_starving [OF this] ret show False
        by simp
    qed
  qed
qed

theorem loops_terminate_witness:
  "length (buf (ShakeStream_init (squeeze (\<lambda>_. 0)))) = 32
   \<and> (\<exists>r. read (ShakeStream_init (squeeze (\<lambda>_. 0))) 1000 = Some r)
   \<and> 256 \<le> length (accepted (\<lambda>_. 0) 128)
   \<and> sample_ntt (ShakeStream_init (squeeze (\<lambda>_. 0))) \<noteq> None"
proof -
  have len: "\<forall>m. length (squeeze (\<lambda>_. 0) m) = m"
    by (simp add: squeeze_def)
  have "length (accepted (\<lambda>_. 0) 128) = 2 * 128"
    by (rule accepted_all_length) (simp add: chunk_candidates_def candidates_def Q_def)
  then have enough: "256 \<le> length (accepted (\<lambda>_. 0) 128)"
    by simp
  note inst = loops_terminate [of "ShakeStream_init (squeeze (\<lambda>_. 0))" 1000 "squeeze (\<lambda>_. 0)" "\<lambda>_. 0"]
  from inst len have "\<exists>r. read (ShakeStream_init (squeeze (\<lambda>_. 0))) 1000 = Some r"
    by blast
  moreover from inst enough have "sample_ntt (ShakeStream_init (squeeze (\<lambda>_. 0))) \<noteq> None"
    by blast
  moreover have "length (buf (ShakeStream_init (squeeze (\<lambda>_. 0)))) = 32"
    by (simp add: ShakeStream_init_def squeeze_def)
  ultimately show ?thesis
    using enough by simp
qed

text \<open>
  The claim as written (termination for every XOF byte stream) fails: with a SHAKE-128
  stand-in whose output bytes are all \<open>0xDD\<close>, every candidate is \<open>0xDDD = 3549\<close>, and
  \<open>sample_ntt\<close> on the stream that \<open>mlkem_xof\<close> builds never returns.
\<close>

theorem sample_ntt_diverges_counterexample:
  "sample_ntt (mlkem_xof \<lparr>shake_128 = hash_const 221, shake_256 = hash_const 0,
                          sha3_256 = hash_const 0, sha3_512 = hash_const 0\<rparr> [] 0 0) = None"
proof -
  have out: "hash_const 221 [0, 0] = (\<lambda>_. 221)"
    by (rule ext) (simp add: hash_const_def)
  have "sample_ntt (ShakeStream_init (squeeze (\<lambda>_. 221))) = None"
  proof (rule sample_ntt_starving)
    fix m
    have "accepted (\<lambda>_. 221) m = []"
      by (rule accepted_none) (simp add: chunk_candidates_def candidates_def Q_def)
    then show "length (accepted (\<lambda>_. 221) m) < 256"
      by simp
  qed
  then show ?thesis
    by (simp add: mlkem_xof_def out)
qed

section \<open>Stand-ins on which the matrix is returned\<close>

lemma sample_ntt_hashlib_last:
  assumes "j < 3"
  shows "sample_ntt (ShakeStream_init (squeeze (shake_128 hashlib_last (rho @ [i, of_nat j]))))
         = Some (Inr (take 256 (accepted (\<lambda>_. of_nat j) 128)))"
proof -
  have out: "shake_128 hashlib_last (rho @ [i, of_nat j]) = (\<lambda>_. of_nat j)"
    by (rule ext) (simp add: hashlib_last_def hash_last_def)
  from assms have "j = 0 \<or> j = 1 \<or> j = 2"
    by auto
  then have "filter (\<lambda>d. d < Q) (candidates (of_nat j) (of_nat j) (of_nat j))
             = candidates (of_nat j) (of_nat j) (of_nat j)"
    by (auto simp: candidates_def Q_def)
  from sample_ntt_const_small [OF this] show ?thesis
    by (simp add: out)
qed

lemma kpke_ahat_hashlib_last:
  "\<exists>ahat. kpke_ahat hashlib_last rho = Some (Inr ahat)"
  by (rule kpke_ahat_returns) (simp add: mlkem_xof_def sample_ntt_hashlib_last)

section \<open>The layers of the transform\<close>

lemma ntt_butterfly_update:
  assumes "j + len < length f" and "0 < len"
  shows "ntt_butterfly z len j f
         = f[j + len := (f ! j - z * f ! (j + len)) mod Q, j := (f ! j + z * f ! (j + len)) mod Q]"
  using assms by (simp add: ntt_butterfly_def Let_def mod_diff_right_eq mod_add_right_eq)

lemma fold_ntt_butterfly:
  assumes "start + 2 * len \<le> length f" and "n \<le> len"
  shows "length (fold (ntt_butterfly z len) [start..<start + n] f) = length f
       \<and> (\<forall>i<length f. fold (ntt_butterfly z len) [start..<start + n] f ! i =
            (if start \<le> i \<and> i < start + n then (f ! i + z * f ! (i + len)) mod Q
             else if start + len \<le> i \<and> i < start + len + n then (f ! (i - len) - z * f ! i) mod Q
             else f ! i))"
  using assms(2)
proof (induction n)
  case 0
  then show ?case by simp
next
  case (Suc n)
  let ?g = "fold (ntt_butterfly z len) [start..<start + n] f"
  from Suc have n: "n < len" by simp
  with Suc.IH have len_g: "length ?g = length f"
    and nth_g: "\<And>i. i < length f \<Longrightarrow> ?g ! i =
            (if start \<le> i \<and> i < start + n then (f ! i + z * f ! (i + len)) mod Q
             else if start + len \<le> i \<and> i < start + len + n then (f ! (i - len) - z * f ! i) mod Q
             else f ! i)"
    by simp_all
  have lo: "?g ! (start + n) = f ! (start + n)"
    using nth_g [of "start + n"] n assms(1) by simp
  have hi: "?g ! (start + n + len) = f ! (start + n + len)"
    using nth_g [of "start + n + len"] n assms(1) by simp
  have step: "fold (ntt_butterfly z len) [start..<start + Suc n] f
        = ?g[start + n + len := (f ! (start + n) - z * f ! (start + n + len)) mod Q,
             start + n := (f ! (start + n) + z * f ! (start + n + len)) mod Q]"
    using n assms(1) by (simp add: ntt_butterfly_update len_g lo hi)
  show ?case
  proof (intro conjI allI impI)
    show "length (fold (ntt_butterfly z len) [start..<start + Suc n] f) = length f"
      by (simp only: step length_list_update len_g)
  next
    fix i
    assume i: "i < length f"
    show "fold (ntt_butterfly z len) [start..<start + Suc n] f ! i =
            (if start \<le> i \<and> i < start + Suc n then (f ! i + z * f ! (i + len)) mod Q
             else if start + len \<le> i \<and> i < start + len + Suc n then (f ! (i - len) - z * f ! i) mod Q
             else f ! i)"
      unfolding step using i n assms(1) nth_g [OF i]
      by (auto simp: nth_list_update len_g)
  qed
qed

lemma block_index:
  fixes i nb m :: nat
  assumes "nb * m \<le> i" and "i < nb * m + m"
  shows "i div m = nb" and "i mod m = i - nb * m"
proof -
  show d: "i div m = nb"
    using assms by (intro div_nat_eqI) (simp_all add: mult.commute)
  have "i mod m = i - i div m * m"
    by (simp add: minus_div_mult_eq_mod)
  then show "i mod m = i - nb * m"
    by (simp add: d)
qed

lemma fold_ntt_block:
  assumes "length f = 256" and "0 < len" and "nb * (2 * len) \<le> 256"
  shows "\<exists>g r'. fold (ntt_block len) (map (\<lambda>b. b * (2 * len)) [0..<nb]) (f, k, r) = (g, k + nb, r')
          \<and> length g = 256
          \<and> (\<forall>i<256. g ! i = (if i < nb * (2 * len)
                                then fwd_val (ZETA ! (k + i div (2 * len))) len f i else f ! i))"
  using assms(3)
proof (induction nb)
  case 0
  then show ?case by (simp add: assms(1))
next
  case (Suc nb)
  from Suc.prems have "nb * (2 * len) \<le> 256"
    unfolding mult_Suc by linarith
  from Suc.IH [OF this] obtain g r' where
    run: "fold (ntt_block len) (map (\<lambda>b. b * (2 * len)) [0..<nb]) (f, k, r) = (g, k + nb, r')"
    and len_g: "length g = 256"
    and nth_g: "\<And>i. i < 256 \<Longrightarrow> g ! i = (if i < nb * (2 * len)
                                then fwd_val (ZETA ! (k + i div (2 * len))) len f i else f ! i)"
    by blast
  define start where "start = nb * (2 * len)"
  define z where "z = ZETA ! (k + nb)"
  define h where "h = fold (ntt_butterfly z len) [start..<start + len] g"
  have bound: "start + 2 * len \<le> 256"
    using Suc.prems unfolding mult_Suc start_def by linarith
  have blk: "length h = length g \<and> (\<forall>i<length g. h ! i =
            (if start \<le> i \<and> i < start + len then (g ! i + z * g ! (i + len)) mod Q
             else if start + len \<le> i \<and> i < start + len + len then (g ! (i - len) - z * g ! i) mod Q
             else g ! i))"
    unfolding h_def by (rule fold_ntt_butterfly) (use bound len_g in simp_all)
  have step: "fold (ntt_block len) (map (\<lambda>b. b * (2 * len)) [0..<Suc nb]) (f, k, r)
              = (h, k + Suc nb, r' @ [k + nb])"
    by (simp add: run ntt_block_def h_def z_def start_def)
  have "h ! i = (if i < Suc nb * (2 * len)
                 then fwd_val (ZETA ! (k + i div (2 * len))) len f i else f ! i)"
    if i: "i < 256" for i
  proof -
    consider (before) "i < start" | (lo) "start \<le> i" "i < start + len"
      | (hi) "start + len \<le> i" "i < start + 2 * len" | (after) "start + 2 * len \<le> i"
      by linarith
    then show ?thesis
    proof cases
      case before
      with blk i len_g have "h ! i = g ! i" by simp
      with before nth_g [OF i] show ?thesis
        by (simp add: start_def)
    next
      case lo
      have idx: "i div (2 * len) = nb" "i mod (2 * len) = i - start"
        using block_index [of nb "2 * len" i] lo assms(2) by (simp_all add: start_def)
      have "h ! i = (g ! i + z * g ! (i + len)) mod Q"
        using blk i len_g lo by simp
      moreover have "g ! i = f ! i"
      proof -
        have "\<not> i < nb * (2 * len)" using lo unfolding start_def by linarith
        with nth_g [OF i] show ?thesis by simp
      qed
      moreover have "g ! (i + len) = f ! (i + len)"
      proof -
        have "i + len < 256" using lo bound by linarith
        moreover have "\<not> i + len < nb * (2 * len)" using lo unfolding start_def by linarith
        ultimately show ?thesis using nth_g [of "i + len"] by simp
      qed
      ultimately show ?thesis
        using lo idx by (simp add: fwd_val_def z_def start_def)
    next
      case hi
      have idx: "i div (2 * len) = nb" "i mod (2 * len) = i - start"
        using block_index [of nb "2 * len" i] hi assms(2) by (simp_all add: start_def)
      have "h ! i = (g ! (i - len) - z * g ! i) mod Q"
        using blk i len_g hi assms(2) by simp
      moreover have "g ! i = f ! i"
      proof -
        have "\<not> i < nb * (2 * len)" using hi unfolding start_def by linarith
        with nth_g [OF i] show ?thesis by simp
      qed
      moreover have "g ! (i - len) = f ! (i - len)"
      proof -
        have "i - len < 256" using i by linarith
        moreover have "\<not> i - len < nb * (2 * len)" using hi unfolding start_def by linarith
        ultimately show ?thesis using nth_g [of "i - len"] by simp
      qed
      ultimately show ?thesis
        using hi idx by (simp add: fwd_val_def z_def start_def)
    next
      case after
      with blk i len_g have "h ! i = g ! i" by simp
      with after nth_g [OF i] show ?thesis
        by (simp add: start_def)
    qed
  qed
  with step blk len_g show ?case
    by auto
qed

lemma range3_blocks:
  "l \<in> {1, 2, 3, 4, 5, 6, 7} \<Longrightarrow>
   range3 0 256 (2 * 2 ^ l) = map (\<lambda>b. b * (2 * 2 ^ l)) [0..<128 div 2 ^ l]"
  by (elim insertE emptyE; simp add: range3_def)

lemma ntt_layer_fwd:
  assumes "length f = 256" and "l \<in> {1, 2, 3, 4, 5, 6, 7}"
  shows "fst (ntt_layer l (f, 128 div 2 ^ l, r)) = fwd_layer l f"
proof -
  have nb: "128 div 2 ^ l * (2 * 2 ^ l) \<le> (256::nat)"
    using assms(2) by (elim insertE emptyE; simp)
  obtain g r' where
    run: "fold (ntt_block (2 ^ l)) (map (\<lambda>b. b * (2 * 2 ^ l)) [0..<128 div 2 ^ l]) (f, 128 div 2 ^ l, r)
          = (g, 128 div 2 ^ l + 128 div 2 ^ l, r')"
    and len_g: "length g = 256"
    and nth_g: "\<And>i. i < 256 \<Longrightarrow> g ! i = (if i < 128 div 2 ^ l * (2 * 2 ^ l)
          then fwd_val (ZETA ! (128 div 2 ^ l + i div (2 * 2 ^ l))) (2 ^ l) f i else f ! i)"
    using fold_ntt_block [OF assms(1) _ nb, of "128 div 2 ^ l" r] by auto
  have full: "128 div 2 ^ l * (2 * 2 ^ l) = (256::nat)"
    using assms(2) by (elim insertE emptyE; simp)
  have "g = fwd_layer l f"
    by (rule nth_equalityI) (simp_all add: len_g fwd_layer_def nth_g full)
  then show ?thesis
    by (simp add: ntt_layer_def Let_def range3_blocks [OF assms(2)] run)
qed

lemma ntt_inv_butterfly_update:
  assumes "j + len < length f" and "0 < len"
  shows "ntt_inv_butterfly z len j f
         = f[j := (f ! j + f ! (j + len)) mod Q, j + len := (z * (f ! (j + len) - f ! j)) mod Q]"
  using assms by (simp add: ntt_inv_butterfly_def Let_def)

lemma fold_ntt_inv_butterfly:
  assumes "start + 2 * len \<le> length f" and "n \<le> len"
  shows "length (fold (ntt_inv_butterfly z len) [start..<start + n] f) = length f
       \<and> (\<forall>i<length f. fold (ntt_inv_butterfly z len) [start..<start + n] f ! i =
            (if start \<le> i \<and> i < start + n then (f ! i + f ! (i + len)) mod Q
             else if start + len \<le> i \<and> i < start + len + n then (z * (f ! i - f ! (i - len))) mod Q
             else f ! i))"
  using assms(2)
proof (induction n)
  case 0
  then show ?case by simp
next
  case (Suc n)
  let ?g = "fold (ntt_inv_butterfly z len) [start..<start + n] f"
  from Suc have n: "n < len" by simp
  with Suc.IH have len_g: "length ?g = length f"
    and nth_g: "\<And>i. i < length f \<Longrightarrow> ?g ! i =
            (if start \<le> i \<and> i < start + n then (f ! i + f ! (i + len)) mod Q
             else if start + len \<le> i \<and> i < start + len + n then (z * (f ! i - f ! (i - len))) mod Q
             else f ! i)"
    by simp_all
  have lo: "?g ! (start + n) = f ! (start + n)"
    using nth_g [of "start + n"] n assms(1) by simp
  have hi: "?g ! (start + n + len) = f ! (start + n + len)"
    using nth_g [of "start + n + len"] n assms(1) by simp
  have step: "fold (ntt_inv_butterfly z len) [start..<start + Suc n] f
        = ?g[start + n := (f ! (start + n) + f ! (start + n + len)) mod Q,
             start + n + len := (z * (f ! (start + n + len) - f ! (start + n))) mod Q]"
    using n assms(1) by (simp add: ntt_inv_butterfly_update len_g lo hi)
  show ?case
  proof (intro conjI allI impI)
    show "length (fold (ntt_inv_butterfly z len) [start..<start + Suc n] f) = length f"
      by (simp only: step length_list_update len_g)
  next
    fix i
    assume i: "i < length f"
    show "fold (ntt_inv_butterfly z len) [start..<start + Suc n] f ! i =
            (if start \<le> i \<and> i < start + Suc n then (f ! i + f ! (i + len)) mod Q
             else if start + len \<le> i \<and> i < start + len + Suc n then (z * (f ! i - f ! (i - len))) mod Q
             else f ! i)"
      unfolding step using i n assms(1) nth_g [OF i]
      by (auto simp: nth_list_update len_g)
  qed
qed

lemma fold_ntt_inv_block:
  assumes "length f = 256" and "0 < len" and "nb * (2 * len) \<le> 256"
  shows "\<exists>g r'. fold (ntt_inv_block len) (map (\<lambda>b. b * (2 * len)) [0..<nb]) (f, k, r) = (g, k - nb, r')
          \<and> length g = 256
          \<and> (\<forall>i<256. g ! i = (if i < nb * (2 * len)
                                then inv_val (ZETA ! (k - i div (2 * len))) len f i else f ! i))"
  using assms(3)
proof (induction nb)
  case 0
  then show ?case by (simp add: assms(1))
next
  case (Suc nb)
  from Suc.prems have "nb * (2 * len) \<le> 256"
    unfolding mult_Suc by linarith
  from Suc.IH [OF this] obtain g r' where
    run: "fold (ntt_inv_block len) (map (\<lambda>b. b * (2 * len)) [0..<nb]) (f, k, r) = (g, k - nb, r')"
    and len_g: "length g = 256"
    and nth_g: "\<And>i. i < 256 \<Longrightarrow> g ! i = (if i < nb * (2 * len)
                                then inv_val (ZETA ! (k - i div (2 * len))) len f i else f ! i)"
    by blast
  define start where "start = nb * (2 * len)"
  define z where "z = ZETA ! (k - nb)"
  define h where "h = fold (ntt_inv_butterfly z len) [start..<start + len] g"
  have bound: "start + 2 * len \<le> 256"
    using Suc.prems unfolding mult_Suc start_def by linarith
  have blk: "length h = length g \<and> (\<forall>i<length g. h ! i =
            (if start \<le> i \<and> i < start + len then (g ! i + g ! (i + len)) mod Q
             else if start + len \<le> i \<and> i < start + len + len then (z * (g ! i - g ! (i - len))) mod Q
             else g ! i))"
    unfolding h_def by (rule fold_ntt_inv_butterfly) (use bound len_g in simp_all)
  have step: "fold (ntt_inv_block len) (map (\<lambda>b. b * (2 * len)) [0..<Suc nb]) (f, k, r)
              = (h, k - Suc nb, r' @ [k - nb])"
    by (simp add: run ntt_inv_block_def h_def z_def start_def)
  have "h ! i = (if i < Suc nb * (2 * len)
                 then inv_val (ZETA ! (k - i div (2 * len))) len f i else f ! i)"
    if i: "i < 256" for i
  proof -
    consider (before) "i < start" | (lo) "start \<le> i" "i < start + len"
      | (hi) "start + len \<le> i" "i < start + 2 * len" | (after) "start + 2 * len \<le> i"
      by linarith
    then show ?thesis
    proof cases
      case before
      with blk i len_g have "h ! i = g ! i" by simp
      with before nth_g [OF i] show ?thesis
        by (simp add: start_def)
    next
      case lo
      have idx: "i div (2 * len) = nb" "i mod (2 * len) = i - start"
        using block_index [of nb "2 * len" i] lo assms(2) by (simp_all add: start_def)
      have "h ! i = (g ! i + g ! (i + len)) mod Q"
        using blk i len_g lo by simp
      moreover have "g ! i = f ! i"
      proof -
        have "\<not> i < nb * (2 * len)" using lo unfolding start_def by linarith
        with nth_g [OF i] show ?thesis by simp
      qed
      moreover have "g ! (i + len) = f ! (i + len)"
      proof -
        have "i + len < 256" using lo bound by linarith
        moreover have "\<not> i + len < nb * (2 * len)" using lo unfolding start_def by linarith
        ultimately show ?thesis using nth_g [of "i + len"] by simp
      qed
      ultimately show ?thesis
        using lo idx by (simp add: inv_val_def z_def start_def)
    next
      case hi
      have idx: "i div (2 * len) = nb" "i mod (2 * len) = i - start"
        using block_index [of nb "2 * len" i] hi assms(2) by (simp_all add: start_def)
      have "h ! i = (z * (g ! i - g ! (i - len))) mod Q"
        using blk i len_g hi assms(2) by simp
      moreover have "g ! i = f ! i"
      proof -
        have "\<not> i < nb * (2 * len)" using hi unfolding start_def by linarith
        with nth_g [OF i] show ?thesis by simp
      qed
      moreover have "g ! (i - len) = f ! (i - len)"
      proof -
        have "i - len < 256" using i by linarith
        moreover have "\<not> i - len < nb * (2 * len)" using hi unfolding start_def by linarith
        ultimately show ?thesis using nth_g [of "i - len"] by simp
      qed
      ultimately show ?thesis
        using hi idx by (simp add: inv_val_def z_def start_def)
    next
      case after
      with blk i len_g have "h ! i = g ! i" by simp
      with after nth_g [OF i] show ?thesis
        by (simp add: start_def)
    qed
  qed
  with step blk len_g show ?case
    by auto
qed

lemma ntt_layer_step:
  assumes "length f = 256" and "l \<in> {1, 2, 3, 4, 5, 6, 7}"
    and "k = 128 div 2 ^ l" and "k' = 2 * k"
  shows "\<exists>r'. ntt_layer l (f, k, r) = (fwd_layer l f, k', r')"
proof -
  have nb: "128 div 2 ^ l * (2 * 2 ^ l) \<le> (256::nat)"
    using assms(2) by (elim insertE emptyE; simp)
  obtain g r' where
    run: "fold (ntt_block (2 ^ l)) (map (\<lambda>b. b * (2 * 2 ^ l)) [0..<128 div 2 ^ l]) (f, 128 div 2 ^ l, r)
          = (g, 128 div 2 ^ l + 128 div 2 ^ l, r')"
    and len_g: "length g = 256"
    and nth_g: "\<And>i. i < 256 \<Longrightarrow> g ! i = (if i < 128 div 2 ^ l * (2 * 2 ^ l)
          then fwd_val (ZETA ! (128 div 2 ^ l + i div (2 * 2 ^ l))) (2 ^ l) f i else f ! i)"
    using fold_ntt_block [OF assms(1) _ nb, of "128 div 2 ^ l" r] by auto
  have full: "128 div 2 ^ l * (2 * 2 ^ l) = (256::nat)"
    using assms(2) by (elim insertE emptyE; simp)
  have "g = fwd_layer l f"
    by (rule nth_equalityI) (simp_all add: len_g fwd_layer_def nth_g full)
  then show ?thesis
    by (simp add: ntt_layer_def Let_def range3_blocks [OF assms(2)] run assms(3,4))
qed

lemma ntt_inv_layer_step:
  assumes "length g = 256" and "l \<in> {1, 2, 3, 4, 5, 6, 7}"
    and "k = 2 * (128 div 2 ^ l) - 1" and "k' = 128 div 2 ^ l - 1"
  shows "\<exists>r'. ntt_inv_layer l (g, k, r) = (inv_layer l g, k', r')"
proof -
  have nb: "128 div 2 ^ l * (2 * 2 ^ l) \<le> (256::nat)"
    using assms(2) by (elim insertE emptyE; simp)
  obtain h r' where
    run: "fold (ntt_inv_block (2 ^ l)) (map (\<lambda>b. b * (2 * 2 ^ l)) [0..<128 div 2 ^ l]) (g, k, r)
          = (h, k - 128 div 2 ^ l, r')"
    and len_h: "length h = 256"
    and nth_h: "\<And>i. i < 256 \<Longrightarrow> h ! i = (if i < 128 div 2 ^ l * (2 * 2 ^ l)
          then inv_val (ZETA ! (k - i div (2 * 2 ^ l))) (2 ^ l) g i else g ! i)"
    using fold_ntt_inv_block [OF assms(1) _ nb, of k r] by auto
  have full: "128 div 2 ^ l * (2 * 2 ^ l) = (256::nat)"
    using assms(2) by (elim insertE emptyE; simp)
  have "h = inv_layer l g"
    by (rule nth_equalityI) (simp_all add: len_h inv_layer_def nth_h full assms(3))
  moreover have "k - 128 div 2 ^ l = k'"
    using assms(2) unfolding assms(3,4) by (elim insertE emptyE; simp)
  ultimately show ?thesis
    by (simp add: ntt_inv_layer_def Let_def range3_blocks [OF assms(2)] run)
qed

lemma length_fwd_layer: "length (fwd_layer l f) = 256"
  by (simp add: fwd_layer_def)

lemma length_inv_layer: "length (inv_layer l f) = 256"
  by (simp add: inv_layer_def)

lemma ntt_layers:
  assumes "length f = 256"
  shows "ntt f = Inr (fwd_layer 1 (fwd_layer 2 (fwd_layer 3 (fwd_layer 4
                  (fwd_layer 5 (fwd_layer 6 (fwd_layer 7 f)))))))"
proof -
  have seq: "rev [1..<8] = [7, 6, 5, 4, 3, 2, 1::nat]"
    by (simp add: upt_rec)
  define f7 where "f7 = fwd_layer 7 f"
  define f6 where "f6 = fwd_layer 6 f7"
  define f5 where "f5 = fwd_layer 5 f6"
  define f4 where "f4 = fwd_layer 4 f5"
  define f3 where "f3 = fwd_layer 3 f4"
  define f2 where "f2 = fwd_layer 2 f3"
  define f1 where "f1 = fwd_layer 1 f2"
  have len: "length f7 = 256" "length f6 = 256" "length f5 = 256" "length f4 = 256"
    "length f3 = 256" "length f2 = 256"
    by (simp_all add: f7_def f6_def f5_def f4_def f3_def f2_def length_fwd_layer)
  have "\<exists>r'. ntt_layer 7 (f, 1, []) = (f7, 2, r')"
    unfolding f7_def by (rule ntt_layer_step [OF assms]) simp_all
  then obtain r7 where s7: "ntt_layer 7 (f, 1, []) = (f7, 2, r7)" by blast
  have "\<exists>r'. ntt_layer 6 (f7, 2, r7) = (f6, 4, r')"
    unfolding f6_def by (rule ntt_layer_step [OF len(1)]) simp_all
  then obtain r6 where s6: "ntt_layer 6 (f7, 2, r7) = (f6, 4, r6)" by blast
  have "\<exists>r'. ntt_layer 5 (f6, 4, r6) = (f5, 8, r')"
    unfolding f5_def by (rule ntt_layer_step [OF len(2)]) simp_all
  then obtain r5 where s5: "ntt_layer 5 (f6, 4, r6) = (f5, 8, r5)" by blast
  have "\<exists>r'. ntt_layer 4 (f5, 8, r5) = (f4, 16, r')"
    unfolding f4_def by (rule ntt_layer_step [OF len(3)]) simp_all
  then obtain r4 where s4: "ntt_layer 4 (f5, 8, r5) = (f4, 16, r4)" by blast
  have "\<exists>r'. ntt_layer 3 (f4, 16, r4) = (f3, 32, r')"
    unfolding f3_def by (rule ntt_layer_step [OF len(4)]) simp_all
  then obtain r3 where s3: "ntt_layer 3 (f4, 16, r4) = (f3, 32, r3)" by blast
  have "\<exists>r'. ntt_layer 2 (f3, 32, r3) = (f2, 64, r')"
    unfolding f2_def by (rule ntt_layer_step [OF len(5)]) simp_all
  then obtain r2 where s2: "ntt_layer 2 (f3, 32, r3) = (f2, 64, r2)" by blast
  have "\<exists>r'. ntt_layer 1 (f2, 64, r2) = (f1, 128, r')"
    unfolding f1_def by (rule ntt_layer_step [OF len(6)]) simp_all
  then obtain r1 where s1: "ntt_layer 1 (f2, 64, r2) = (f1, 128, r1)" by blast
  have "ntt_run f = (f1, 128, r1)"
    unfolding ntt_run_def seq by (simp only: fold_simps s7 s6 s5 s4 s3 s2 s1)
  then have "ntt f = Inr f1"
    using assms by (simp add: ntt_def)
  then show ?thesis
    by (simp only: f1_def f2_def f3_def f4_def f5_def f6_def f7_def)
qed

lemma all_below_iff: "all_below P n \<longleftrightarrow> (\<forall>b<n. P b)"
  by (induction n) (auto simp: less_Suc_eq)

lemma all_below_numeral:
  "all_below P (numeral k) = (P (pred_numeral k) \<and> all_below P (pred_numeral k))"
  by (simp add: numeral_eq_Suc)

lemma upt_7: "[0..<7] = [0, 1, 2, 3, 4, 5, 6]"
  by (simp add: upt_rec)

lemma bitrev7_sum:
  "bitrev7 n = 64 * (n mod 2) + 32 * (n div 2 mod 2) + 16 * (n div 4 mod 2) + 8 * (n div 8 mod 2)
               + 4 * (n div 16 mod 2) + 2 * (n div 32 mod 2) + n div 64 mod 2"
  by (simp add: bitrev7_def upt_7)

lemma pw17_add: "pw17 (m + n) = pw17 m * pw17 n mod Q"
  by (simp add: pw17_def power_add mod_mult_eq)

lemma pw17_range: "0 \<le> pw17 n" "pw17 n < Q"
  by (simp_all add: pw17_def Q_def)

lemma pw17_128: "pw17 128 = Q - 1"
proof -
  have dbl: "pw17 (2 * n) = pw17 n * pw17 n mod Q" for n
    using pw17_add [of n n] by (simp add: mult_2)
  have p1: "pw17 (Suc 0) = 17" by (simp add: pw17_def Q_def)
  have p2: "pw17 2 = 289" using dbl [of 1] by (simp add: p1 Q_def)
  have p4: "pw17 4 = 296" using dbl [of 2] by (simp add: p2 Q_def)
  have p8: "pw17 8 = 1062" using dbl [of 4] by (simp add: p4 Q_def)
  have p16: "pw17 16 = 2642" using dbl [of 8] by (simp add: p8 Q_def)
  have p32: "pw17 32 = 2580" using dbl [of 16] by (simp add: p16 Q_def)
  have p64: "pw17 64 = 1729" using dbl [of 32] by (simp add: p32 Q_def)
  show ?thesis using dbl [of 64] by (simp add: p64 Q_def)
qed

lemma ZETA_pw17: "k < 128 \<Longrightarrow> ZETA ! k = pw17 (bitrev7 k)"
  by (simp add: ZETA_def pw17_def)

lemma GAMMA_pw17: "k < 128 \<Longrightarrow> GAMMA ! k = pw17 (2 * bitrev7 k + 1)"
  by (simp add: GAMMA_def pw17_def)

lemma bitrev7_mirror:
  shows "all_below (\<lambda>b. bitrev7 (64 + b) + bitrev7 (127 - b) = 128) 64"
    and "all_below (\<lambda>b. bitrev7 (32 + b) + bitrev7 (63 - b) = 128) 32"
    and "all_below (\<lambda>b. bitrev7 (16 + b) + bitrev7 (31 - b) = 128) 16"
    and "all_below (\<lambda>b. bitrev7 (8 + b) + bitrev7 (15 - b) = 128) 8"
    and "all_below (\<lambda>b. bitrev7 (4 + b) + bitrev7 (7 - b) = 128) 4"
    and "all_below (\<lambda>b. bitrev7 (2 + b) + bitrev7 (3 - b) = 128) 2"
    and "all_below (\<lambda>b. bitrev7 (1 + b) + bitrev7 (1 - b) = 128) 1"
  by (simp_all add: all_below_numeral bitrev7_sum)

lemma bitrev7_mirror_layer:
  assumes "l \<in> {1, 2, 3, 4, 5, 6, 7}" and "b < 128 div 2 ^ l"
  shows "bitrev7 (128 div 2 ^ l + b) + bitrev7 (2 * (128 div 2 ^ l) - 1 - b) = 128"
  using assms bitrev7_mirror [unfolded all_below_iff]
  by (elim insertE emptyE; simp)

lemma zeta_mirror:
  assumes "l \<in> {1, 2, 3, 4, 5, 6, 7}" and "b < 128 div 2 ^ l"
  shows "ZETA ! (128 div 2 ^ l + b) * ZETA ! (2 * (128 div 2 ^ l) - 1 - b) mod Q = Q - 1"
proof -
  have k1: "128 div 2 ^ l + b < 128" and k2: "2 * (128 div 2 ^ l) - 1 - b < 128"
    using assms by (elim insertE emptyE; simp)+
  have "ZETA ! (128 div 2 ^ l + b) * ZETA ! (2 * (128 div 2 ^ l) - 1 - b) mod Q
        = pw17 (bitrev7 (128 div 2 ^ l + b) + bitrev7 (2 * (128 div 2 ^ l) - 1 - b))"
    by (simp only: ZETA_pw17 [OF k1] ZETA_pw17 [OF k2] pw17_add)
  then show ?thesis
    by (simp only: bitrev7_mirror_layer [OF assms] pw17_128)
qed

lemma half_lo:
  fixes i len :: nat
  assumes "0 < len" and "i mod (2 * len) < len"
  shows "(i + len) div (2 * len) = i div (2 * len)"
    and "(i + len) mod (2 * len) = i mod (2 * len) + len"
proof -
  have i: "i = i div (2 * len) * (2 * len) + i mod (2 * len)"
    by (rule div_mult_mod_eq [symmetric])
  have lo: "i div (2 * len) * (2 * len) \<le> i + len"
    using i by linarith
  have hi: "i + len < i div (2 * len) * (2 * len) + 2 * len"
    using i assms(2) by linarith
  show "(i + len) div (2 * len) = i div (2 * len)"
    by (rule block_index(1) [OF lo hi])
  have "(i + len) mod (2 * len) = i + len - i div (2 * len) * (2 * len)"
    by (rule block_index(2) [OF lo hi])
  also have "\<dots> = i mod (2 * len) + len"
    using i by linarith
  finally show "(i + len) mod (2 * len) = i mod (2 * len) + len" .
qed

lemma half_hi:
  fixes i len :: nat
  assumes "0 < len" and "len \<le> i mod (2 * len)"
  shows "(i - len) div (2 * len) = i div (2 * len)"
    and "(i - len) mod (2 * len) = i mod (2 * len) - len"
    and "len \<le> i"
proof -
  have i: "i = i div (2 * len) * (2 * len) + i mod (2 * len)"
    by (rule div_mult_mod_eq [symmetric])
  have m: "i mod (2 * len) < 2 * len"
    using assms(1) by simp
  show le: "len \<le> i"
    using i assms(2) by linarith
  have lo: "i div (2 * len) * (2 * len) \<le> i - len"
    using i assms(2) by linarith
  have hi: "i - len < i div (2 * len) * (2 * len) + 2 * len"
    using i m le by linarith
  show "(i - len) div (2 * len) = i div (2 * len)"
    by (rule block_index(1) [OF lo hi])
  have "(i - len) mod (2 * len) = i - len - i div (2 * len) * (2 * len)"
    by (rule block_index(2) [OF lo hi])
  also have "\<dots> = i mod (2 * len) - len"
    using i assms(2) by linarith
  finally show "(i - len) mod (2 * len) = i mod (2 * len) - len" .
qed

lemma layer_bounds:
  fixes i l :: nat
  assumes "l \<in> {1, 2, 3, 4, 5, 6, 7}" and "i < 256"
  shows "i div (2 * 2 ^ l) < 128 div 2 ^ l"
    and "i mod (2 * 2 ^ l) < 2 ^ l \<Longrightarrow> i + 2 ^ l < 256"
proof -
  have full: "128 div 2 ^ l * (2 * 2 ^ l) = (256::nat)"
    using assms(1) by (elim insertE emptyE; simp)
  have pos: "(0::nat) < 2 * 2 ^ l"
    by simp
  show b: "i div (2 * 2 ^ l) < 128 div 2 ^ l"
    using assms(2) full pos by (metis less_mult_imp_div_less)
  assume lo: "i mod (2 * 2 ^ l) < 2 ^ l"
  have i: "i = i div (2 * 2 ^ l) * (2 * 2 ^ l) + i mod (2 * 2 ^ l)"
    by (rule div_mult_mod_eq [symmetric])
  have "Suc (i div (2 * 2 ^ l)) * (2 * 2 ^ l) \<le> 128 div 2 ^ l * (2 * 2 ^ l)"
    using b by (intro mult_le_mono1) simp
  then have "i div (2 * 2 ^ l) * (2 * 2 ^ l) + 2 * 2 ^ l \<le> 256"
    unfolding full by simp
  with i lo show "i + 2 ^ l < 256"
    by linarith
qed

lemma fwd_layer_nth: "i < 256 \<Longrightarrow>
  fwd_layer l f ! i = fwd_val (ZETA ! (128 div 2 ^ l + i div (2 * 2 ^ l))) (2 ^ l) f i"
  by (simp add: fwd_layer_def)

lemma inv_layer_nth: "i < 256 \<Longrightarrow>
  inv_layer l g ! i = inv_val (ZETA ! (2 * (128 div 2 ^ l) - 1 - i div (2 * 2 ^ l))) (2 ^ l) g i"
  by (simp add: inv_layer_def)

lemma inv_fwd_layer:
  assumes l: "l \<in> {1, 2, 3, 4, 5, 6, 7}"
    and g: "\<And>i. i < 256 \<Longrightarrow> g ! i = (c * fwd_layer l f ! i) mod Q"
    and i: "i < 256"
  shows "inv_layer l g ! i = (2 * c * f ! i) mod Q"
proof -
  define len :: nat where "len = 2 ^ l"
  define b where "b = i div (2 * len)"
  define z where "z = ZETA ! (128 div len + b)"
  define z' where "z' = ZETA ! (2 * (128 div len) - 1 - b)"
  have pos: "0 < len"
    by (simp add: len_def)
  have b: "b < 128 div len"
    unfolding b_def len_def by (rule layer_bounds(1) [OF l i])
  have zz: "z * z' mod Q = Q - 1"
    unfolding z_def z'_def len_def using zeta_mirror [OF l] b by (simp add: len_def)
  show ?thesis
  proof (cases "i mod (2 * len) < len")
    case True
    have up: "i + len < 256"
      using layer_bounds(2) [OF l i] True by (simp add: len_def)
    have idx: "(i + len) div (2 * len) = b" "(i + len) mod (2 * len) = i mod (2 * len) + len"
      using half_lo [OF pos True] by (simp_all add: b_def)
    have gi: "g ! i = (c * ((f ! i + z * f ! (i + len)) mod Q)) mod Q"
      using g [OF i] True
      by (simp add: fwd_layer_nth [OF i] fwd_val_def len_def [symmetric] b_def [symmetric] z_def)
    have gu: "g ! (i + len) = (c * ((f ! i - z * f ! (i + len)) mod Q)) mod Q"
      using g [OF up] idx
      by (simp add: fwd_layer_nth [OF up] fwd_val_def len_def [symmetric] z_def)
    have "inv_layer l g ! i = (g ! i + g ! (i + len)) mod Q"
      using True by (simp add: inv_layer_nth [OF i] inv_val_def len_def [symmetric])
    also have "\<dots> = (c * (f ! i + z * f ! (i + len)) + c * (f ! i - z * f ! (i + len))) mod Q"
      unfolding gi gu by (simp add: mod_simps)
    also have "c * (f ! i + z * f ! (i + len)) + c * (f ! i - z * f ! (i + len)) = 2 * c * f ! i"
      by (simp add: algebra_simps)
    finally show ?thesis .
  next
    case False
    then have ge: "len \<le> i mod (2 * len)"
      by simp
    have le: "len \<le> i" and idx: "(i - len) div (2 * len) = b"
      "(i - len) mod (2 * len) = i mod (2 * len) - len"
      using half_hi [OF pos ge] by (simp_all add: b_def)
    have dn: "i - len < 256"
      using i by simp
    have m: "i mod (2 * len) < 2 * len"
      using pos by simp
    have low: "(i - len) mod (2 * len) < len"
      using idx(2) m ge by linarith
    have gi: "g ! i = (c * ((f ! (i - len) - z * f ! i) mod Q)) mod Q"
      using g [OF i] False
      by (simp add: fwd_layer_nth [OF i] fwd_val_def len_def [symmetric] b_def [symmetric] z_def)
    have gd: "g ! (i - len) = (c * ((f ! (i - len) + z * f ! i) mod Q)) mod Q"
      using g [OF dn] idx low le
      by (simp add: fwd_layer_nth [OF dn] fwd_val_def len_def [symmetric] z_def)
    have "inv_layer l g ! i = (z' * (g ! i - g ! (i - len))) mod Q"
      using False
      by (simp add: inv_layer_nth [OF i] inv_val_def len_def [symmetric] b_def [symmetric] z'_def)
    also have "\<dots> = (z' * (c * (f ! (i - len) - z * f ! i) - c * (f ! (i - len) + z * f ! i))) mod Q"
      unfolding gi gd by (simp add: mod_simps) (metis mod_diff_eq mod_mult_right_eq)
    also have "z' * (c * (f ! (i - len) - z * f ! i) - c * (f ! (i - len) + z * f ! i))
               = (z * z') * (- 2 * c * f ! i)"
      by (simp add: algebra_simps)
    also have "((z * z') * (- 2 * c * f ! i)) mod Q = ((z * z' mod Q) * (- 2 * c * f ! i)) mod Q"
      by (simp only: mod_mult_left_eq)
    also have "\<dots> = ((Q - 1) * (- 2 * c * f ! i)) mod Q"
      by (simp only: zz)
    also have "(Q - 1) * (- 2 * c * f ! i) = 2 * c * f ! i + Q * (- 2 * c * f ! i)"
      by (simp add: algebra_simps)
    also have "(2 * c * f ! i + Q * (- 2 * c * f ! i)) mod Q = (2 * c * f ! i) mod Q"
      by (simp only: mod_mult_self2)
    finally show ?thesis .
  qed
qed

lemma fold_ntt_inv_scale:
  assumes "n \<le> length h"
  shows "length (fold ntt_inv_scale [0..<n] h) = length h
       \<and> (\<forall>i<length h. fold ntt_inv_scale [0..<n] h ! i
             = (if i < n then (h ! i * 3303) mod Q else h ! i))"
  using assms
proof (induction n)
  case 0
  then show ?case by simp
next
  case (Suc n)
  then show ?case
    by (auto simp: ntt_inv_scale_def nth_list_update)
qed

lemma ntt_inv_layers:
  assumes "length g = 256"
  shows "ntt_inv g = Inr (map (\<lambda>x. (x * 3303) mod Q)
           (inv_layer 7 (inv_layer 6 (inv_layer 5 (inv_layer 4
             (inv_layer 3 (inv_layer 2 (inv_layer 1 g))))))))"
proof -
  have seq: "[1..<8] = [1, 2, 3, 4, 5, 6, 7::nat]"
    by (simp add: upt_rec)
  define g1 where "g1 = inv_layer 1 g"
  define g2 where "g2 = inv_layer 2 g1"
  define g3 where "g3 = inv_layer 3 g2"
  define g4 where "g4 = inv_layer 4 g3"
  define g5 where "g5 = inv_layer 5 g4"
  define g6 where "g6 = inv_layer 6 g5"
  define g7 where "g7 = inv_layer 7 g6"
  have len: "length g1 = 256" "length g2 = 256" "length g3 = 256" "length g4 = 256"
    "length g5 = 256" "length g6 = 256" "length g7 = 256"
    by (simp_all add: g1_def g2_def g3_def g4_def g5_def g6_def g7_def length_inv_layer)
  have "\<exists>r'. ntt_inv_layer 1 (g, 127, []) = (g1, 63, r')"
    unfolding g1_def by (rule ntt_inv_layer_step [OF assms]) simp_all
  then obtain r1 where s1: "ntt_inv_layer 1 (g, 127, []) = (g1, 63, r1)" by blast
  have "\<exists>r'. ntt_inv_layer 2 (g1, 63, r1) = (g2, 31, r')"
    unfolding g2_def by (rule ntt_inv_layer_step [OF len(1)]) simp_all
  then obtain r2 where s2: "ntt_inv_layer 2 (g1, 63, r1) = (g2, 31, r2)" by blast
  have "\<exists>r'. ntt_inv_layer 3 (g2, 31, r2) = (g3, 15, r')"
    unfolding g3_def by (rule ntt_inv_layer_step [OF len(2)]) simp_all
  then obtain r3 where s3: "ntt_inv_layer 3 (g2, 31, r2) = (g3, 15, r3)" by blast
  have "\<exists>r'. ntt_inv_layer 4 (g3, 15, r3) = (g4, 7, r')"
    unfolding g4_def by (rule ntt_inv_layer_step [OF len(3)]) simp_all
  then obtain r4 where s4: "ntt_inv_layer 4 (g3, 15, r3) = (g4, 7, r4)" by blast
  have "\<exists>r'. ntt_inv_layer 5 (g4, 7, r4) = (g5, 3, r')"
    unfolding g5_def by (rule ntt_inv_layer_step [OF len(4)]) simp_all
  then obtain r5 where s5: "ntt_inv_layer 5 (g4, 7, r4) = (g5, 3, r5)" by blast
  have "\<exists>r'. ntt_inv_layer 6 (g5, 3, r5) = (g6, 1, r')"
    unfolding g6_def by (rule ntt_inv_layer_step [OF len(5)]) simp_all
  then obtain r6 where s6: "ntt_inv_layer 6 (g5, 3, r5) = (g6, 1, r6)" by blast
  have "\<exists>r'. ntt_inv_layer 7 (g6, 1, r6) = (g7, 0, r')"
    unfolding g7_def by (rule ntt_inv_layer_step [OF len(6)]) simp_all
  then obtain r7 where s7: "ntt_inv_layer 7 (g6, 1, r6) = (g7, 0, r7)" by blast
  have run: "ntt_inv_run g = (g7, 0, r7)"
    unfolding ntt_inv_run_def seq by (simp only: fold_simps s7 s6 s5 s4 s3 s2 s1)
  have "fold ntt_inv_scale [0..<256] g7 = map (\<lambda>x. (x * 3303) mod Q) g7"
    using fold_ntt_inv_scale [of 256 g7] len(7)
    by (intro nth_equalityI) simp_all
  then have "ntt_inv g = Inr (map (\<lambda>x. (x * 3303) mod Q) g7)"
    using assms by (simp add: ntt_inv_def run)
  then show ?thesis
    by (simp only: g1_def g2_def g3_def g4_def g5_def g6_def g7_def)
qed

lemma ntt_inv_ntt:
  assumes len: "length f = 256" and rng: "list_all (\<lambda>x. 0 \<le> x \<and> x < Q) f"
  shows "bind_err (ntt f) ntt_inv = Inr f"
proof -
  define f7 where "f7 = fwd_layer 7 f"
  define f6 where "f6 = fwd_layer 6 f7"
  define f5 where "f5 = fwd_layer 5 f6"
  define f4 where "f4 = fwd_layer 4 f5"
  define f3 where "f3 = fwd_layer 3 f4"
  define f2 where "f2 = fwd_layer 2 f3"
  define f1 where "f1 = fwd_layer 1 f2"
  define g1 where "g1 = inv_layer 1 f1"
  define g2 where "g2 = inv_layer 2 g1"
  define g3 where "g3 = inv_layer 3 g2"
  define g4 where "g4 = inv_layer 4 g3"
  define g5 where "g5 = inv_layer 5 g4"
  define g6 where "g6 = inv_layer 6 g5"
  define g7 where "g7 = inv_layer 7 g6"
  have fwd: "ntt f = Inr f1"
    unfolding f1_def f2_def f3_def f4_def f5_def f6_def f7_def by (rule ntt_layers [OF len])
  have inv: "ntt_inv f1 = Inr (map (\<lambda>x. (x * 3303) mod Q) g7)"
    unfolding g1_def g2_def g3_def g4_def g5_def g6_def g7_def
    by (rule ntt_inv_layers) (simp add: f1_def length_fwd_layer)
  have red: "(1 * fwd_layer 1 f2 ! i) mod Q = fwd_layer 1 f2 ! i" if "i < 256" for i
    using that by (simp add: fwd_layer_nth fwd_val_def)
  have h1: "g1 ! i = (2 * f2 ! i) mod Q" if "i < 256" for i
    using inv_fwd_layer [of 1 f1 1 f2 i] that red by (simp add: g1_def f1_def)
  have h2: "g2 ! i = (4 * f3 ! i) mod Q" if "i < 256" for i
    using inv_fwd_layer [of 2 g1 2 f3 i] that h1 by (simp add: g2_def f2_def)
  have h3: "g3 ! i = (8 * f4 ! i) mod Q" if "i < 256" for i
    using inv_fwd_layer [of 3 g2 4 f4 i] that h2 by (simp add: g3_def f3_def)
  have h4: "g4 ! i = (16 * f5 ! i) mod Q" if "i < 256" for i
    using inv_fwd_layer [of 4 g3 8 f5 i] that h3 by (simp add: g4_def f4_def)
  have h5: "g5 ! i = (32 * f6 ! i) mod Q" if "i < 256" for i
    using inv_fwd_layer [of 5 g4 16 f6 i] that h4 by (simp add: g5_def f5_def)
  have h6: "g6 ! i = (64 * f7 ! i) mod Q" if "i < 256" for i
    using inv_fwd_layer [of 6 g5 32 f7 i] that h5 by (simp add: g6_def f6_def)
  have h7: "g7 ! i = (128 * f ! i) mod Q" if "i < 256" for i
    using inv_fwd_layer [of 7 g6 64 f i] that h6 by (simp add: g7_def f7_def)
  have "map (\<lambda>x. (x * 3303) mod Q) g7 = f"
  proof (rule nth_equalityI)
    show "length (map (\<lambda>x. (x * 3303) mod Q) g7) = length f"
      by (simp add: g7_def length_inv_layer len)
  next
    fix i
    assume "i < length (map (\<lambda>x. (x * 3303) mod Q) g7)"
    then have i: "i < 256"
      by (simp add: g7_def length_inv_layer)
    have fi: "0 \<le> f ! i" "f ! i < Q"
      using rng i len by (simp_all add: list_all_length)
    have "map (\<lambda>x. (x * 3303) mod Q) g7 ! i = ((128 * f ! i) mod Q * 3303) mod Q"
      using i by (simp add: g7_def length_inv_layer h7 [OF i, unfolded g7_def])
    also have "\<dots> = (128 * f ! i * 3303) mod Q"
      by (simp only: mod_mult_left_eq)
    also have "128 * f ! i * 3303 = f ! i + Q * (127 * f ! i)"
      by (simp add: Q_def)
    also have "(f ! i + Q * (127 * f ! i)) mod Q = f ! i mod Q"
      by (simp only: mod_mult_self2)
    also have "f ! i mod Q = f ! i"
      using fi by simp
    finally show "map (\<lambda>x. (x * 3303) mod Q) g7 ! i = f ! i" .
  qed
  with fwd inv show ?thesis
    by (simp add: bind_err_def)
qed

section \<open>The inverse transform undoes the forward transform\<close>

text \<open>
  Claim C4. For every 256-coefficient polynomial \<open>f\<close> with every entry in \<open>[0, 3329)\<close>,
  \<open>ntt_inv(ntt(f)) = f\<close>: the forward transform returns a list, and the inverse transform
  applied to it returns \<open>f\<close>.
\<close>

theorem ntt_roundtrip:
  assumes "length f = 256" and "list_all (\<lambda>x. 0 \<le> x \<and> x < 3329) f"
  shows "\<exists>g. ntt f = Inr g \<and> ntt_inv g = Inr f"
proof -
  have "bind_err (ntt f) ntt_inv = Inr f"
    by (rule ntt_inv_ntt [OF assms(1)]) (use assms(2) in \<open>simp add: Q_def\<close>)
  then show ?thesis
    by (cases "ntt f") (simp_all add: bind_err_def)
qed

theorem ntt_roundtrip_witness:
  "length (map int [0..<256]) = 256
   \<and> list_all (\<lambda>x. 0 \<le> x \<and> x < 3329) (map int [0..<256])
   \<and> (\<exists>g. ntt (map int [0..<256]) = Inr g \<and> ntt_inv g = Inr (map int [0..<256]))"
proof -
  have l: "length (map int [0..<256]) = 256"
    by simp
  have r: "list_all (\<lambda>x. 0 \<le> x \<and> x < 3329) (map int [0..<256])"
    by (simp add: list_all_length)
  from ntt_roundtrip [OF l r] l r show ?thesis
    by blast
qed

section \<open>Operations that return\<close>

text \<open>
  On arguments of the right lengths the pure helpers raise nothing, and the operations of
  K-PKE return as soon as the nine samplers of the matrix do.
\<close>

lemma mapM_err_nth:
  "mapM_err f xs = Inr ys \<Longrightarrow>
   length ys = length xs \<and> (\<forall>i<length xs. f (xs ! i) = Inr (ys ! i))"
proof (induction xs arbitrary: ys)
  case Nil
  then show ?case by simp
next
  case (Cons x xs)
  from Cons.prems obtain y ys' where fx: "f x = Inr y"
    and rest: "mapM_err f xs = Inr ys'" and ys: "ys = y # ys'"
    by (auto simp: bind_err_def split: sum.splits)
  from Cons.IH [OF rest] have len: "length ys' = length xs"
    and nth: "\<And>i. i < length xs \<Longrightarrow> f (xs ! i) = Inr (ys' ! i)"
    by simp_all
  show ?case
  proof (intro conjI allI impI)
    show "length ys = length (x # xs)"
      by (simp add: ys len)
  next
    fix i assume "i < length (x # xs)"
    then show "f ((x # xs) ! i) = Inr (ys ! i)"
      by (cases i) (simp_all add: ys fx nth)
  qed
qed

lemma mapM_err_all:
  "(\<And>x. x \<in> set xs \<Longrightarrow> \<exists>y. f x = Inr y \<and> P y) \<Longrightarrow>
   \<exists>ys. mapM_err f xs = Inr ys \<and> length ys = length xs \<and> list_all P ys"
proof (induction xs)
  case Nil
  then show ?case by simp
next
  case (Cons x xs)
  obtain y where "f x = Inr y" and "P y"
    using Cons.prems [of x] by auto
  moreover obtain ys where "mapM_err f xs = Inr ys" and "length ys = length xs" and "list_all P ys"
    using Cons.IH Cons.prems by auto
  ultimately show ?case
    by (simp add: bind_err_def)
qed


lemma ntt_returns:
  assumes "length f = 256"
  shows "\<exists>g. ntt f = Inr g \<and> length g = 256"
  by (simp add: ntt_layers [OF assms] length_fwd_layer)

lemma ntt_inv_returns:
  assumes "length f = 256"
  shows "\<exists>g. ntt_inv f = Inr g \<and> length g = 256"
  by (simp add: ntt_inv_layers [OF assms] length_inv_layer)

lemma length_fold_ntt_mul_step:
  "length (fold (ntt_mul_step a b) [0..<n] c) = length c + 2 * n"
  by (induction n) (simp_all add: ntt_mul_step_def Let_def)

lemma ntt_mul_returns:
  assumes "length a = 256" and "length b = 256"
  shows "\<exists>c. ntt_mul a b = Inr c \<and> length c = 256"
  using assms by (simp add: ntt_mul_def length_fold_ntt_mul_step)

lemma length_poly256_add: "length (poly256_add a b) = min (length a) (length b)"
  by (simp add: poly256_add_def)

lemma length_poly256_sub: "length (poly256_sub a b) = min (length a) (length b)"
  by (simp add: poly256_sub_def)

lemma length_foldl_ntt_add:
  "length x = n \<Longrightarrow> list_all (\<lambda>p. length p = n) xs \<Longrightarrow> length (foldl ntt_add x xs) = n"
  by (induction xs arbitrary: x) (simp_all add: ntt_add_def length_poly256_add)

lemma reduce_ntt_add_returns:
  assumes "xs \<noteq> []" and "list_all (\<lambda>p. length p = n) xs"
  shows "\<exists>acc. reduce ntt_add xs = Inr acc \<and> length acc = n"
proof (cases xs)
  case Nil
  with assms show ?thesis by simp
next
  case (Cons x rest)
  with assms show ?thesis
    by (simp add: reduce_def length_foldl_ntt_add)
qed

lemma length_bytes_to_bits: "length (bytes_to_bits data) = 8 * length data"
  by (induction data) (simp_all add: bytes_to_bits_def)

lemma sample_poly_cbd_returns:
  assumes "length data = 64 * eta"
  shows "\<exists>f. sample_poly_cbd eta data = Inr f \<and> length f = 256"
  using assms by (simp add: sample_poly_cbd_def Let_def)

lemma length_mlkem_prf: "length (mlkem_prf hl eta data b) = 64 * eta"
  by (simp add: mlkem_prf_def squeeze_def)

lemma byte_decode_returns:
  assumes "32 * d \<le> length data"
  shows "\<exists>f. byte_decode d data = Inr f \<and> length f = 256"
  using assms by (simp add: byte_decode_def Let_def length_bytes_to_bits)

lemma length_concat_bits:
  "length (concat (map (\<lambda>a. map (g a) [0..<d]) f)) = length f * d"
  by (induction f) simp_all

lemma set_concat_bits:
  "x \<in> set (concat (map (\<lambda>a. map (\<lambda>i. drop_bit i a AND 1) [0..<d]) f)) \<Longrightarrow> x = 0 \<or> x = (1::int)"
  by (auto simp: and_one_eq)

lemma byte_value_range:
  fixes bits :: "int list"
  assumes "\<And>j. j < 8 \<Longrightarrow> bits ! (i + j) = 0 \<or> bits ! (i + j) = 1"
  shows "0 \<le> (\<Sum>j\<leftarrow>[0..<8]. push_bit j (bits ! (i + j)))
       \<and> (\<Sum>j\<leftarrow>[0..<8]. push_bit j (bits ! (i + j))) < 256"
proof -
  have e: "[0..<8] = [0, 1, 2, 3, 4, 5, 6, 7::nat]"
    by (simp add: upt_rec)
  have b: "0 \<le> bits ! (i + j) \<and> bits ! (i + j) \<le> 1" if "j < 8" for j
    using assms [OF that] by auto
  from b [of 0] b [of 1] b [of 2] b [of 3] b [of 4] b [of 5] b [of 6] b [of 7]
  show ?thesis
    unfolding e by (simp add: push_bit_eq_mult)
qed

lemma bits_to_bytes_returns:
  assumes len: "length bits = 8 * n" and bit: "\<And>x. x \<in> set bits \<Longrightarrow> x = 0 \<or> x = 1"
  shows "\<exists>bs. bits_to_bytes bits = Inr bs \<and> length bs = n"
proof -
  let ?vals = "map (\<lambda>i. \<Sum>j\<leftarrow>[0..<8]. push_bit j (bits ! (i + j))) (range3 0 (length bits) 8)"
  have lr: "length (range3 0 (length bits) 8) = n"
    by (simp add: range3_def len)
  have "0 \<le> v \<and> v < 256" if "v \<in> set ?vals" for v
  proof -
    from that obtain k where k: "k < n" and v: "v = (\<Sum>j\<leftarrow>[0..<8]. push_bit j (bits ! (k * 8 + j)))"
      by (auto simp: range3_def len)
    have "bits ! (k * 8 + j) = 0 \<or> bits ! (k * 8 + j) = 1" if "j < 8" for j
    proof (rule bit)
      from k that have "k * 8 + j < length bits"
        by (simp add: len)
      then show "bits ! (k * 8 + j) \<in> set bits"
        by (rule nth_mem)
    qed
    from byte_value_range [of bits "k * 8", OF this] show ?thesis
      by (simp add: v)
  qed
  then have "list_all (\<lambda>v. 0 \<le> v \<and> v < 256) ?vals"
    unfolding list_all_iff by blast
  then have "bits_to_bytes bits = Inr (map word_of_int ?vals)"
    by (simp add: bits_to_bytes_def len Let_def)
  then show ?thesis
    by (simp add: lr)
qed

lemma byte_encode_returns:
  assumes "length f = 256"
  shows "\<exists>bs. byte_encode d f = Inr bs \<and> length bs = 32 * d"
proof -
  let ?bits = "concat (map (\<lambda>a. map (\<lambda>i. drop_bit i a AND 1) [0..<d]) f)"
  have "length ?bits = 8 * (32 * d)"
    by (simp add: length_concat_bits assms)
  from bits_to_bytes_returns [OF this set_concat_bits] show ?thesis
    by (simp add: byte_encode_def assms)
qed

lemma sample_ntt_length:
  assumes "sample_ntt xof = Some (Inr p)"
  shows "length p = 256"
  using sample_ntt_loop_partial [of xof "[]" "Inr p"] assms
  by (simp add: sample_ntt_def)

lemma bind_err_Inr: "bind_err (Inr v) f = f v"
  by (simp add: bind_err_def)

lemma bind_result_Inr: "bind_result (Some (Inr v)) f = f v"
  by (simp add: bind_result_def)

lemma length_concat_all:
  "list_all (\<lambda>b. length b = n) xs \<Longrightarrow> length (concat xs) = length xs * n"
  by (induction xs) simp_all

lemma list_all_nth: "list_all P xs \<Longrightarrow> i < length xs \<Longrightarrow> P (xs ! i)"
  by (simp add: list_all_length)

lemma cbd_ntt_returns:
  "\<exists>y. bind_err (sample_poly_cbd eta (mlkem_prf hl eta data b)) ntt = Inr y \<and> length y = 256"
proof -
  obtain f where f: "sample_poly_cbd eta (mlkem_prf hl eta data b) = Inr f" and lf: "length f = 256"
    using sample_poly_cbd_returns [OF length_mlkem_prf] by blast
  obtain g where "ntt f = Inr g" and "length g = 256"
    using ntt_returns [OF lf] by blast
  then show ?thesis
    by (simp add: f bind_err_Inr)
qed

lemma kpke_ahat_lengths:
  assumes "kpke_ahat hl rho = Some (Inr ahat)" and "i < 3" and "j < 3"
  shows "length (ahat ! i ! j) = 256"
  using kpke_ahat_nth [OF assms] by (rule sample_ntt_length)

lemma kpke_keygen_returns:
  assumes dr: "(case seed of None \<Rightarrow> os_urandom 32 rng | Some s \<Rightarrow> (s, rng)) = (d, rng1)"
    and ahat: "kpke_ahat hl (take 32 (mlkem_hash_G hl d)) = Some (Inr ahat)"
  shows "\<exists>ek dk. kpke_keygen hl rng seed = Some (Inr ((ek, dk), rng1))
           \<and> length ek = 1184 \<and> length dk = 1152
           \<and> drop 1152 ek = take 32 (mlkem_hash_G hl d)"
proof -
  define rho where "rho = take 32 (mlkem_hash_G hl d)"
  define sigma where "sigma = drop 32 (mlkem_hash_G hl d)"
  have lrho: "length rho = 32"
    by (simp add: rho_def mlkem_hash_G_def squeeze_def)
  have ahat': "kpke_ahat hl rho = Some (Inr ahat)"
    using ahat by (simp add: rho_def)
  have la: "length (ahat ! i ! j) = 256" if "i < 3" and "j < 3" for i j
    using kpke_ahat_lengths [OF ahat that] .
  obtain shat where shat: "mapM_err (\<lambda>i. bind_err (sample_poly_cbd ETA1 (mlkem_prf hl ETA1 sigma (of_nat i))) ntt)
                    [0..<K] = Inr shat" and lshat: "length shat = 3"
    and ashat: "list_all (\<lambda>p. length p = 256) shat"
    using mapM_err_all [where P = "\<lambda>p. length p = 256" and xs = "[0..<K]"
        and f = "\<lambda>i. bind_err (sample_poly_cbd ETA1 (mlkem_prf hl ETA1 sigma (of_nat i))) ntt"]
      cbd_ntt_returns by (auto simp: K_def)
  obtain ehat where ehat: "mapM_err (\<lambda>i. bind_err (sample_poly_cbd ETA1 (mlkem_prf hl ETA1 sigma (of_nat (i + K)))) ntt)
                    [0..<K] = Inr ehat" and lehat: "length ehat = 3"
    and aehat: "list_all (\<lambda>p. length p = 256) ehat"
    using mapM_err_all [where P = "\<lambda>p. length p = 256" and xs = "[0..<K]"
        and f = "\<lambda>i. bind_err (sample_poly_cbd ETA1 (mlkem_prf hl ETA1 sigma (of_nat (i + K)))) ntt"]
      cbd_ntt_returns by (auto simp: K_def)
  have row: "\<exists>y. bind_err (mapM_err (\<lambda>j. ntt_mul (ahat ! j ! i) (shat ! j)) [0..<K]) (\<lambda>prods.
                     reduce ntt_add (prods @ [ehat ! i])) = Inr y \<and> length y = 256"
    if "i \<in> set [0..<K]" for i
  proof -
    from that have i: "i < 3"
      by (simp add: K_def)
    have mul: "\<exists>y. ntt_mul (ahat ! j ! i) (shat ! j) = Inr y \<and> length y = 256" if "j \<in> set [0..<K]" for j
    proof -
      from that have j: "j < 3"
        by (simp add: K_def)
      have "length (shat ! j) = 256"
        using list_all_nth [OF ashat] j lshat by simp
      with la [OF j i] show ?thesis
        by (rule ntt_mul_returns)
    qed
    from mapM_err_all [where P = "\<lambda>p. length p = 256" and xs = "[0..<K]"
        and f = "\<lambda>j. ntt_mul (ahat ! j ! i) (shat ! j)", OF mul]
    obtain prods where p: "mapM_err (\<lambda>j. ntt_mul (ahat ! j ! i) (shat ! j)) [0..<K] = Inr prods"
      and ap: "list_all (\<lambda>p. length p = 256) prods"
      by blast
    have "length (ehat ! i) = 256"
      using list_all_nth [OF aehat] i lehat by simp
    with ap have "list_all (\<lambda>p. length p = 256) (prods @ [ehat ! i])"
      by simp
    from reduce_ntt_add_returns [OF _ this] show ?thesis
      by (simp add: p bind_err_Inr)
  qed
  from mapM_err_all [where P = "\<lambda>p. length p = 256" and xs = "[0..<K]"
      and f = "\<lambda>i. bind_err (mapM_err (\<lambda>j. ntt_mul (ahat ! j ! i) (shat ! j)) [0..<K]) (\<lambda>prods.
                     reduce ntt_add (prods @ [ehat ! i]))", OF row]
  obtain that where that: "mapM_err (\<lambda>i.
                     bind_err (mapM_err (\<lambda>j. ntt_mul (ahat ! j ! i) (shat ! j)) [0..<K]) (\<lambda>prods.
                     reduce ntt_add (prods @ [ehat ! i]))) [0..<K] = Inr that"
    and lthat: "length that = 3" and athat: "list_all (\<lambda>p. length p = 256) that"
    by (auto simp: K_def)
  have enc: "\<exists>ys. mapM_err (byte_encode 12) xs = Inr ys \<and> length ys = length xs
               \<and> list_all (\<lambda>b. length b = 384) ys"
    if "list_all (\<lambda>p. length p = 256) xs" for xs
  proof (rule mapM_err_all)
    fix x assume "x \<in> set xs"
    with that have "length x = 256"
      by (simp add: list_all_iff)
    from byte_encode_returns [OF this, of 12] show "\<exists>y. byte_encode 12 x = Inr y \<and> length y = 384"
      by simp
  qed
  from enc [OF athat] obtain enc_t where enc_t: "mapM_err (byte_encode 12) that = Inr enc_t"
    and lt: "length enc_t = 3" and at: "list_all (\<lambda>b. length b = 384) enc_t"
    using lthat by auto
  from enc [OF ashat] obtain enc_s where enc_s: "mapM_err (byte_encode 12) shat = Inr enc_s"
    and ls: "length enc_s = 3" and as: "list_all (\<lambda>b. length b = 384) enc_s"
    using lshat by auto
  have "kpke_keygen hl rng seed = Some (Inr ((concat enc_t @ rho, concat enc_s), rng1))"
    unfolding kpke_keygen_def
    by (simp only: dr prod.case Let_def ahat' bind_result_Inr rho_def [symmetric] sigma_def [symmetric]
          shat ehat that enc_t enc_s bind_err_Inr)
  moreover have "length (concat enc_t @ rho) = 1184" and "length (concat enc_s) = 1152"
    and "drop 1152 (concat enc_t @ rho) = rho"
    by (simp_all add: length_concat_all [OF at] length_concat_all [OF as] lt ls lrho)
  ultimately show ?thesis
    by (simp add: rho_def)
qed


lemma length_compress: "length (compress d x) = length x"
  by (simp add: compress_def)

lemma length_decompress: "length (decompress d x) = length x"
  by (simp add: decompress_def)

lemma dot_returns:
  assumes "\<And>j. j < 3 \<Longrightarrow> length (a j) = 256" and "\<And>j. j < 3 \<Longrightarrow> length (b j) = 256"
  shows "\<exists>prods acc. mapM_err (\<lambda>j. ntt_mul (a j) (b j)) [0..<K] = Inr prods
           \<and> list_all (\<lambda>p. length p = 256) prods
           \<and> reduce ntt_add prods = Inr acc \<and> length acc = 256"
proof -
  have mul: "\<exists>y. ntt_mul (a j) (b j) = Inr y \<and> length y = 256" if "j \<in> set [0..<K]" for j
  proof -
    from that have j: "j < 3"
      by (simp add: K_def)
    from assms(1) [OF j] assms(2) [OF j] show ?thesis
      by (rule ntt_mul_returns)
  qed
  from mapM_err_all [where P = "\<lambda>p. length p = 256" and xs = "[0..<K]"
      and f = "\<lambda>j. ntt_mul (a j) (b j)", OF mul]
  obtain prods where p: "mapM_err (\<lambda>j. ntt_mul (a j) (b j)) [0..<K] = Inr prods"
    and lp: "length prods = length [0..<K]"
    and ap: "list_all (\<lambda>p. length p = 256) prods"
    by blast
  from lp have "prods \<noteq> []"
    by (auto simp: K_def)
  from reduce_ntt_add_returns [OF this ap] p ap show ?thesis
    by blast
qed

lemma kpke_encrypt_returns:
  assumes lek: "1152 \<le> length ek" and lm: "32 \<le> length m"
    and ahat: "kpke_ahat hl (drop (length ek - 32) ek) = Some (Inr ahat)"
  shows "\<exists>c. kpke_encrypt hl ek m r = Some (Inr c) \<and> length c = 1088"
proof -
  have la: "length (ahat ! i ! j) = 256" if "i < 3" and "j < 3" for i j
    using kpke_ahat_lengths [OF ahat that] .
  have dec: "\<exists>y. byte_decode 12 (take (128 * K) (drop (i * 128 * K) ek)) = Inr y \<and> length y = 256"
    if "i \<in> set [0..<K]" for i
  proof (rule byte_decode_returns)
    from that have "i < 3"
      by (simp add: K_def)
    with lek show "32 * 12 \<le> length (take (128 * K) (drop (i * 128 * K) ek))"
      by (simp add: K_def)
  qed
  from mapM_err_all [where P = "\<lambda>p. length p = 256" and xs = "[0..<K]"
      and f = "\<lambda>i. byte_decode 12 (take (128 * K) (drop (i * 128 * K) ek))", OF dec]
  obtain that where that: "mapM_err (\<lambda>i. byte_decode 12 (take (128 * K) (drop (i * 128 * K) ek))) [0..<K]
        = Inr that" and lthat: "length that = 3" and athat: "list_all (\<lambda>p. length p = 256) that"
    by (auto simp: K_def)
  obtain rhat where rhat: "mapM_err (\<lambda>i. bind_err (sample_poly_cbd ETA1 (mlkem_prf hl ETA1 r (of_nat i))) ntt)
                    [0..<K] = Inr rhat" and lrhat: "length rhat = 3"
    and arhat: "list_all (\<lambda>p. length p = 256) rhat"
    using mapM_err_all [where P = "\<lambda>p. length p = 256" and xs = "[0..<K]"
        and f = "\<lambda>i. bind_err (sample_poly_cbd ETA1 (mlkem_prf hl ETA1 r (of_nat i))) ntt"]
      cbd_ntt_returns by (auto simp: K_def)
  obtain e1 where e1: "mapM_err (\<lambda>i. sample_poly_cbd ETA2 (mlkem_prf hl ETA2 r (of_nat (i + K))))
                    [0..<K] = Inr e1" and le1: "length e1 = 3"
    and ae1: "list_all (\<lambda>p. length p = 256) e1"
    using mapM_err_all [where P = "\<lambda>p. length p = 256" and xs = "[0..<K]"
        and f = "\<lambda>i. sample_poly_cbd ETA2 (mlkem_prf hl ETA2 r (of_nat (i + K)))"]
      sample_poly_cbd_returns [OF length_mlkem_prf] by (auto simp: K_def)
  obtain e2 where e2: "sample_poly_cbd ETA2 (mlkem_prf hl ETA2 r (of_nat (2 * K))) = Inr e2"
    and le2: "length e2 = 256"
    using sample_poly_cbd_returns [OF length_mlkem_prf] by blast
  have lr: "length (rhat ! j) = 256" if "j < 3" for j
    using list_all_nth [OF arhat] that lrhat by simp
  have lt: "length (that ! j) = 256" if "j < 3" for j
    using list_all_nth [OF athat] that lthat by simp
  have row: "\<exists>y. bind_err (mapM_err (\<lambda>j. ntt_mul (ahat ! i ! j) (rhat ! j)) [0..<K]) (\<lambda>prods.
                   bind_err (reduce ntt_add prods) (\<lambda>acc.
                   bind_err (ntt_inv acc) (\<lambda>w. Inr (poly256_add w (e1 ! i))))) = Inr y \<and> length y = 256"
    if "i \<in> set [0..<K]" for i
  proof -
    from that have i: "i < 3"
      by (simp add: K_def)
    from dot_returns [where a = "\<lambda>j. ahat ! i ! j" and b = "\<lambda>j. rhat ! j", OF la [OF i] lr]
    obtain prods acc where p: "mapM_err (\<lambda>j. ntt_mul (ahat ! i ! j) (rhat ! j)) [0..<K] = Inr prods"
      and acc: "reduce ntt_add prods = Inr acc" and lacc: "length acc = 256"
      by blast
    obtain w where w: "ntt_inv acc = Inr w" and lw: "length w = 256"
      using ntt_inv_returns [OF lacc] by blast
    have "length (e1 ! i) = 256"
      using list_all_nth [OF ae1] i le1 by simp
    then show ?thesis
      by (simp add: p acc w bind_err_Inr length_poly256_add lw)
  qed
  from mapM_err_all [where P = "\<lambda>p. length p = 256" and xs = "[0..<K]"
      and f = "\<lambda>i. bind_err (mapM_err (\<lambda>j. ntt_mul (ahat ! i ! j) (rhat ! j)) [0..<K]) (\<lambda>prods.
                   bind_err (reduce ntt_add prods) (\<lambda>acc.
                   bind_err (ntt_inv acc) (\<lambda>w. Inr (poly256_add w (e1 ! i)))))", OF row]
  obtain u where u: "mapM_err (\<lambda>i.
                   bind_err (mapM_err (\<lambda>j. ntt_mul (ahat ! i ! j) (rhat ! j)) [0..<K]) (\<lambda>prods.
                   bind_err (reduce ntt_add prods) (\<lambda>acc.
                   bind_err (ntt_inv acc) (\<lambda>w. Inr (poly256_add w (e1 ! i)))))) [0..<K] = Inr u"
    and lu: "length u = 3" and au: "list_all (\<lambda>p. length p = 256) u"
    by (auto simp: K_def)
  obtain mbits where mbits: "byte_decode 1 m = Inr mbits" and lmbits: "length mbits = 256"
    using byte_decode_returns [of 1 m] lm by auto
  from dot_returns [where a = "\<lambda>i. that ! i" and b = "\<lambda>i. rhat ! i", OF lt lr]
  obtain prods acc where prods: "mapM_err (\<lambda>i. ntt_mul (that ! i) (rhat ! i)) [0..<K] = Inr prods"
    and acc: "reduce ntt_add prods = Inr acc" and lacc: "length acc = 256"
    by blast
  obtain w where w: "ntt_inv acc = Inr w" and lw: "length w = 256"
    using ntt_inv_returns [OF lacc] by blast
  define v where "v = poly256_add w (poly256_add e2 (decompress 1 mbits))"
  have lv: "length v = 256"
    by (simp add: v_def length_poly256_add lw le2 length_decompress lmbits)
  have encu: "\<exists>y. byte_encode DU (compress DU (u ! i)) = Inr y \<and> length y = 320"
    if "i \<in> set [0..<K]" for i
  proof -
    from that have i: "i < 3"
      by (simp add: K_def)
    have "length (compress DU (u ! i)) = 256"
      using list_all_nth [OF au] i lu by (simp add: length_compress)
    from byte_encode_returns [OF this, of DU] show ?thesis
      by (simp add: DU_def)
  qed
  from mapM_err_all [where P = "\<lambda>b. length b = 320" and xs = "[0..<K]"
      and f = "\<lambda>i. byte_encode DU (compress DU (u ! i))", OF encu]
  obtain c1 where c1: "mapM_err (\<lambda>i. byte_encode DU (compress DU (u ! i))) [0..<K] = Inr c1"
    and lc1: "length c1 = 3" and ac1: "list_all (\<lambda>b. length b = 320) c1"
    by (auto simp: K_def)
  have "length (compress DV v) = 256"
    by (simp add: length_compress lv)
  from byte_encode_returns [OF this, of DV]
  obtain c2 where c2: "byte_encode DV (compress DV v) = Inr c2" and lc2: "length c2 = 128"
    by (auto simp: DV_def)
  have "kpke_encrypt hl ek m r = Some (Inr (concat c1 @ c2))"
    unfolding kpke_encrypt_def
    by (simp only: that sum.case Let_def ahat bind_result_Inr rhat e1 e2 u mbits prods acc w
          v_def [symmetric] c1 c2 bind_err_Inr)
  moreover have "length (concat c1 @ c2) = 1088"
    by (simp add: length_concat_all [OF ac1] lc1 lc2)
  ultimately show ?thesis
    by blast
qed

lemma kpke_decrypt_returns:
  assumes lc: "1088 \<le> length c" and ldk: "1152 \<le> length dk_pke"
  shows "\<exists>m. kpke_decrypt dk_pke c = Inr m \<and> length m = 32"
proof -
  define c1 where "c1 = take (32 * DU * K) c"
  define c2 where "c2 = drop (32 * DU * K) c"
  have decu: "\<exists>y. bind_err (byte_decode DU (take (32 * DU) (drop (i * 32 * DU) c1)))
                     (\<lambda>x. Inr (decompress DU x)) = Inr y \<and> length y = 256"
    if "i \<in> set [0..<K]" for i
  proof -
    from that have "i < 3"
      by (simp add: K_def)
    with lc have "32 * DU \<le> length (take (32 * DU) (drop (i * 32 * DU) c1))"
      by (simp add: c1_def K_def DU_def)
    from byte_decode_returns [OF this] show ?thesis
      by (auto simp: bind_err_Inr length_decompress)
  qed
  from mapM_err_all [where P = "\<lambda>p. length p = 256" and xs = "[0..<K]"
      and f = "\<lambda>i. bind_err (byte_decode DU (take (32 * DU) (drop (i * 32 * DU) c1)))
                     (\<lambda>x. Inr (decompress DU x))", OF decu]
  obtain u where u: "mapM_err (\<lambda>i. bind_err (byte_decode DU (take (32 * DU) (drop (i * 32 * DU) c1)))
                     (\<lambda>x. Inr (decompress DU x))) [0..<K] = Inr u"
    and lu: "length u = 3" and au: "list_all (\<lambda>p. length p = 256) u"
    by (auto simp: K_def)
  have "32 * DV \<le> length c2"
    using lc by (simp add: c2_def K_def DU_def DV_def)
  from byte_decode_returns [OF this]
  obtain x where x: "byte_decode DV c2 = Inr x" and lx: "length x = 256"
    by blast
  define v where "v = decompress DV x"
  have lv: "length v = 256"
    by (simp add: v_def length_decompress lx)
  have decs: "\<exists>y. byte_decode 12 (take 384 (drop (i * 384) dk_pke)) = Inr y \<and> length y = 256"
    if "i \<in> set [0..<K]" for i
  proof (rule byte_decode_returns)
    from that have "i < 3"
      by (simp add: K_def)
    with ldk show "32 * 12 \<le> length (take 384 (drop (i * 384) dk_pke))"
      by simp
  qed
  from mapM_err_all [where P = "\<lambda>p. length p = 256" and xs = "[0..<K]"
      and f = "\<lambda>i. byte_decode 12 (take 384 (drop (i * 384) dk_pke))", OF decs]
  obtain shat where shat: "mapM_err (\<lambda>i. byte_decode 12 (take 384 (drop (i * 384) dk_pke))) [0..<K]
        = Inr shat" and lshat: "length shat = 3" and ashat: "list_all (\<lambda>p. length p = 256) shat"
    by (auto simp: K_def)
  have mul: "\<exists>y. bind_err (ntt (u ! i)) (ntt_mul (shat ! i)) = Inr y \<and> length y = 256"
    if "i \<in> set [0..<K]" for i
  proof -
    from that have i: "i < 3"
      by (simp add: K_def)
    have "length (u ! i) = 256"
      using list_all_nth [OF au] i lu by simp
    from ntt_returns [OF this] obtain g where g: "ntt (u ! i) = Inr g" and lg: "length g = 256"
      by blast
    have "length (shat ! i) = 256"
      using list_all_nth [OF ashat] i lshat by simp
    from ntt_mul_returns [OF this lg] show ?thesis
      by (simp add: g bind_err_Inr)
  qed
  from mapM_err_all [where P = "\<lambda>p. length p = 256" and xs = "[0..<K]"
      and f = "\<lambda>i. bind_err (ntt (u ! i)) (ntt_mul (shat ! i))", OF mul]
  obtain prods where prods: "mapM_err (\<lambda>i. bind_err (ntt (u ! i)) (ntt_mul (shat ! i))) [0..<K] = Inr prods"
    and lp: "length prods = 3" and ap: "list_all (\<lambda>p. length p = 256) prods"
    by (auto simp: K_def)
  from lp have "prods \<noteq> []"
    by auto
  from reduce_ntt_add_returns [OF this ap]
  obtain acc where acc: "reduce ntt_add prods = Inr acc" and lacc: "length acc = 256"
    by blast
  obtain t where t: "ntt_inv acc = Inr t" and lt: "length t = 256"
    using ntt_inv_returns [OF lacc] by blast
  have "length (compress 1 (poly256_sub v t)) = 256"
    by (simp add: length_compress length_poly256_sub lv lt)
  from byte_encode_returns [OF this, of 1]
  obtain m where m: "byte_encode 1 (compress 1 (poly256_sub v t)) = Inr m" and lm: "length m = 32"
    by auto
  have "kpke_decrypt dk_pke c = Inr m"
    unfolding kpke_decrypt_def
    by (simp only: Let_def c1_def [symmetric] c2_def [symmetric] u x v_def [symmetric] shat prods
          acc t m bind_err_Inr)
  with lm show ?thesis
    by blast
qed

lemma length_mlkem_hash_J: "length (mlkem_hash_J hl data) = 32"
  by (simp add: mlkem_hash_J_def squeeze_def)

lemma length_mlkem_hash_G: "length (mlkem_hash_G hl data) = 64"
  by (simp add: mlkem_hash_G_def squeeze_def)

lemma length_mlkem_hash_H: "length (mlkem_hash_H hl data) = 32"
  by (simp add: mlkem_hash_H_def squeeze_def)

lemma kpke_keygen_entropy:
  assumes "kpke_keygen hl rng seed = Some (Inr (keys, r))"
  shows "r = snd (case seed of None \<Rightarrow> os_urandom 32 rng | Some s \<Rightarrow> (s, rng))"
proof -
  obtain d rng1 where dr: "(case seed of None \<Rightarrow> os_urandom 32 rng | Some s \<Rightarrow> (s, rng)) = (d, rng1)"
    by (cases "case seed of None \<Rightarrow> os_urandom 32 rng | Some s \<Rightarrow> (s, rng)")
  from assms have "r = rng1"
    unfolding kpke_keygen_def
    by (simp only: dr prod.case Let_def)
       (auto simp: bind_result_def bind_err_def split: option.splits sum.splits)
  then show ?thesis
    by (simp add: dr)
qed

lemma mlkem_decaps_returns:
  assumes lc: "1088 \<le> length c" and ldk: "2400 \<le> length dk"
    and ahat: "kpke_ahat hl (take 32 (drop 2304 dk)) = Some (Inr ahat)"
  shows "\<exists>k. mlkem_decaps hl rng c dk = Some (Inr (k, rng))"
proof -
  define dk_pke where "dk_pke = take (384 * K) dk"
  define ek_pke where "ek_pke = take (768 * K + 32 - 384 * K) (drop (384 * K) dk)"
  have "1152 \<le> length dk_pke"
    using ldk by (simp add: dk_pke_def K_def)
  from kpke_decrypt_returns [OF lc this]
  obtain mdash where mdash: "kpke_decrypt dk_pke c = Inr mdash" and lm: "32 \<le> length mdash"
    by auto
  have lek: "length ek_pke = 1184"
    using ldk by (simp add: ek_pke_def K_def)
  have "drop (length ek_pke - 32) ek_pke = take 32 (drop 2304 dk)"
    unfolding lek using ldk by (simp add: ek_pke_def K_def drop_take)
  with ahat have a: "kpke_ahat hl (drop (length ek_pke - 32) ek_pke) = Some (Inr ahat)"
    by simp
  have "1152 \<le> length ek_pke"
    by (simp add: lek)
  from kpke_encrypt_returns [OF this lm a]
  obtain cdash where cdash: "kpke_encrypt hl ek_pke mdash
      (drop 32 (mlkem_hash_G hl (mdash @ take 32 (drop (768 * K + 32) dk)))) = Some (Inr cdash)"
    by blast
  have "mlkem_decaps hl rng c dk =
          (if cdash \<noteq> c then Some (Inr (mlkem_hash_J hl (take 32 (drop (768 * K + 64) dk) @ c), rng))
           else Some (Inr (take 32 (mlkem_hash_G hl (mdash @ take 32 (drop (768 * K + 32) dk))), rng)))"
    unfolding mlkem_decaps_def
    by (simp only: Let_def dk_pke_def [symmetric] ek_pke_def [symmetric] mdash cdash bind_result_Inr)
  then show ?thesis
    by (cases "cdash = c") simp_all
qed


lemma mlkem_keygen_returns:
  assumes "\<And>rho. \<exists>ahat. kpke_ahat hl rho = Some (Inr ahat)"
  shows "\<exists>ek dk r. mlkem_keygen hl rng None None = Some (Inr ((ek, dk), r))"
proof -
  obtain ahat where a: "kpke_ahat hl (take 32 (mlkem_hash_G hl (map (\<lambda>i. rng (i + 32)) [0..<32])))
      = Some (Inr ahat)"
    using assms by blast
  have dr: "(case None of None \<Rightarrow> os_urandom 32 (\<lambda>i. rng (i + 32)) | Some s \<Rightarrow> (s, \<lambda>i. rng (i + 32)))
            = (map (\<lambda>i. rng (i + 32)) [0..<32], \<lambda>i. rng (i + 32 + 32))"
    by (simp add: os_urandom_def)
  from kpke_keygen_returns [OF dr a]
  obtain ek dk where "kpke_keygen hl (\<lambda>i. rng (i + 32)) None = Some (Inr ((ek, dk), \<lambda>i. rng (i + 32 + 32)))"
    by blast
  then show ?thesis
    by (simp add: mlkem_keygen_def os_urandom_def Let_def bind_result_Inr)
qed

lemma mlkem_encaps_returns:
  assumes "\<And>rho. \<exists>ahat. kpke_ahat hl rho = Some (Inr ahat)" and "1152 \<le> length ek"
  shows "\<exists>k c r. mlkem_encaps hl rng ek None = Some (Inr ((k, c), r))"
proof -
  obtain ahat where a: "kpke_ahat hl (drop (length ek - 32) ek) = Some (Inr ahat)"
    using assms(1) by blast
  have "32 \<le> length (map rng [0..<32])"
    by simp
  from kpke_encrypt_returns [OF assms(2) this a]
  obtain c where "kpke_encrypt hl ek (map rng [0..<32])
      (drop 32 (mlkem_hash_G hl (map rng [0..<32] @ mlkem_hash_H hl ek))) = Some (Inr c)"
    by blast
  then show ?thesis
    by (simp add: mlkem_encaps_def os_urandom_def Let_def bind_result_Inr)
qed


section \<open>The seeds of the matrix\<close>





section \<open>Decapsulation consumes no randomness\<close>

text \<open>
  Claim C10. \<open>mlkem_decaps\<close> is deterministic: for the same ciphertext and the same
  decapsulation key its outcome is the same whatever the state of the operating system's
  randomness, which it hands back untouched, and a shared secret that it returns has 32
  bytes. Key generation and encapsulation do consume randomness: \<open>mlkem_keygen\<close> without
  seeds takes 64 bytes, the first 32 of which are the last 32 bytes of the decapsulation key,
  and \<open>mlkem_encaps\<close> without a seed takes 32 bytes and returns what it returns with
  these bytes as seed.
\<close>

theorem mlkem_decaps_deterministic:
  "mlkem_decaps hl rng2 c dk
     = map_option (map_sum id (\<lambda>(k, r). (k, rng2))) (mlkem_decaps hl rng1 c dk)
   \<and> (mlkem_decaps hl rng c dk = Some (Inr (k, r)) \<longrightarrow> length k = 32 \<and> r = rng)
   \<and> (mlkem_keygen hl rng None None = Some (Inr ((ek, dk'), r')) \<longrightarrow>
        r' = (\<lambda>i. rng (i + 64)) \<and> drop (length dk' - 32) dk' = map rng [0..<32])
   \<and> (mlkem_encaps hl rng ek' None = Some (Inr ((k', c'), r'')) \<longrightarrow>
        r'' = (\<lambda>i. rng (i + 32))
        \<and> mlkem_encaps hl rng ek' (Some (map rng [0..<32])) = Some (Inr ((k', c'), rng)))"
proof (intro conjI impI)
  show "mlkem_decaps hl rng2 c dk
     = map_option (map_sum id (\<lambda>(k, r). (k, rng2))) (mlkem_decaps hl rng1 c dk)"
    by (auto simp: mlkem_decaps_def Let_def bind_result_def split: option.splits sum.splits)
next
  assume "mlkem_decaps hl rng c dk = Some (Inr (k, r))"
  then have "(k = mlkem_hash_J hl (take 32 (drop (768 * K + 64) dk) @ c)
              \<or> (\<exists>x. k = take 32 (mlkem_hash_G hl x))) \<and> r = rng"
    by (auto simp: mlkem_decaps_def Let_def bind_result_def split: option.splits sum.splits if_splits)
  then show "length k = 32" and "r = rng"
    by (auto simp: length_mlkem_hash_J length_mlkem_hash_G)
next
  assume kg: "mlkem_keygen hl rng None None = Some (Inr ((ek, dk'), r'))"
  then obtain ek_pke dk_pke where k: "kpke_keygen hl (\<lambda>i. rng (i + 32)) None = Some (Inr ((ek_pke, dk_pke), r'))"
    and dk': "dk' = dk_pke @ ek_pke @ mlkem_hash_H hl ek_pke @ map rng [0..<32]"
    by (auto simp: mlkem_keygen_def os_urandom_def Let_def bind_result_def
        split: option.splits sum.splits prod.splits)
  from kpke_keygen_entropy [OF k] show "r' = (\<lambda>i. rng (i + 64))"
    by (simp add: os_urandom_def add.assoc)
  show "drop (length dk' - 32) dk' = map rng [0..<32]"
    by (simp add: dk')
next
  assume en: "mlkem_encaps hl rng ek' None = Some (Inr ((k', c'), r''))"
  then show "r'' = (\<lambda>i. rng (i + 32))"
    by (auto simp: mlkem_encaps_def os_urandom_def Let_def bind_result_def
        split: option.splits sum.splits)
  from en show "mlkem_encaps hl rng ek' (Some (map rng [0..<32])) = Some (Inr ((k', c'), rng))"
    by (auto simp: mlkem_encaps_def os_urandom_def Let_def bind_result_def
        split: option.splits sum.splits)
qed

theorem mlkem_decaps_deterministic_witness:
  "(\<exists>k. mlkem_decaps hashlib_last (\<lambda>_. 0) (replicate 1088 0) (replicate 2400 0) = Some (Inr (k, \<lambda>_. 0))
        \<and> mlkem_decaps hashlib_last (\<lambda>_. 1) (replicate 1088 0) (replicate 2400 0) = Some (Inr (k, \<lambda>_. 1))
        \<and> length k = 32)
   \<and> (\<exists>ek dk. mlkem_keygen hashlib_last of_nat None None = Some (Inr ((ek, dk), \<lambda>i. of_nat (i + 64)))
        \<and> drop (length dk - 32) dk = map of_nat [0..<32])
   \<and> (\<exists>k c. mlkem_encaps hashlib_last of_nat (replicate 1184 0) None
                = Some (Inr ((k, c), \<lambda>i. of_nat (i + 32)))
        \<and> mlkem_encaps hashlib_last of_nat (replicate 1184 0) (Some (map of_nat [0..<32]))
                = Some (Inr ((k, c), of_nat)))"
proof (intro conjI)
  let ?c = "replicate 1088 (0::byte)" and ?dk = "replicate 2400 (0::byte)"
  obtain ahat where "kpke_ahat hashlib_last (take 32 (drop 2304 ?dk)) = Some (Inr ahat)"
    using kpke_ahat_hashlib_last by blast
  from mlkem_decaps_returns [OF _ _ this, of ?c "\<lambda>_. 0"]
  obtain k where d0: "mlkem_decaps hashlib_last (\<lambda>_. 0) ?c ?dk = Some (Inr (k, \<lambda>_. 0))"
    by auto
  from mlkem_decaps_deterministic [of hashlib_last "\<lambda>_. 1" ?c ?dk "\<lambda>_. 0" "\<lambda>_. 0" k "\<lambda>_. 0"] d0
  have "mlkem_decaps hashlib_last (\<lambda>_. 1) ?c ?dk = Some (Inr (k, \<lambda>_. 1))" and "length k = 32"
    by simp_all
  with d0 show "\<exists>k. mlkem_decaps hashlib_last (\<lambda>_. 0) ?c ?dk = Some (Inr (k, \<lambda>_. 0))
        \<and> mlkem_decaps hashlib_last (\<lambda>_. 1) ?c ?dk = Some (Inr (k, \<lambda>_. 1)) \<and> length k = 32"
    by blast
next
  obtain ek dk r where kg: "mlkem_keygen hashlib_last of_nat None None = Some (Inr ((ek, dk), r))"
    using mlkem_keygen_returns [of hashlib_last of_nat] kpke_ahat_hashlib_last by blast
  from mlkem_decaps_deterministic [of hashlib_last _ _ _ _ of_nat _ _ ek dk r] kg
  have "r = (\<lambda>i. of_nat (i + 64))" and "drop (length dk - 32) dk = map of_nat [0..<32]"
    by simp_all
  with kg show "\<exists>ek dk. mlkem_keygen hashlib_last of_nat None None
        = Some (Inr ((ek, dk), \<lambda>i. of_nat (i + 64)))
        \<and> drop (length dk - 32) dk = map of_nat [0..<32]"
    by blast
next
  let ?ek = "replicate 1184 (0::byte)"
  obtain k c r where en: "mlkem_encaps hashlib_last of_nat ?ek None = Some (Inr ((k, c), r))"
    using mlkem_encaps_returns [of hashlib_last ?ek of_nat] kpke_ahat_hashlib_last by auto
  from mlkem_decaps_deterministic [of hashlib_last _ _ _ _ of_nat _ _ _ _ _ ?ek k c r] en
  have "r = (\<lambda>i. of_nat (i + 32))"
    and "mlkem_encaps hashlib_last of_nat ?ek (Some (map of_nat [0..<32])) = Some (Inr ((k, c), of_nat))"
    by simp_all
  with en show "\<exists>k c. mlkem_encaps hashlib_last of_nat ?ek None
                = Some (Inr ((k, c), \<lambda>i. of_nat (i + 32)))
        \<and> mlkem_encaps hashlib_last of_nat ?ek (Some (map of_nat [0..<32]))
                = Some (Inr ((k, c), of_nat))"
    by blast
qed

end
